theory Spec2Isabelle
  imports Main "HOL-Library.Stream" "HOL-Library.Multiset"
    "HOL-Library.List_Lexorder" "HOL-Library.Product_Lexorder"
begin

unbundle bit_operations_syntax

section \<open>Python values used by fc-slow.py\<close>

text \<open>
  A Python \<open>str\<close> is a sequence of Unicode code points; \<open>ord\<close> reads a code point
  and \<open>chr\<close> builds one, raising \<open>ValueError\<close> outside \<open>range(0x110000)\<close>.
  Strings are therefore lists of code points (naturals), and a string literal of the
  source is written \<open>str_of ''...''\<close>.
\<close>

type_synonym pystr = "nat list"

definition str_of :: "string \<Rightarrow> pystr" where
  "str_of s = map of_char s"

datatype error = ValueError | IndexError | KeyError | ZeroDivisionError
  | UnicodeEncodeError | SyntaxError | TypeError

definition chr :: "int \<Rightarrow> error + nat" where
  "chr n = (if 0 \<le> n \<and> n < 0x110000 then Inr (nat n) else Inl ValueError)"

text \<open>
  A call of the program returns a value, raises an exception, or runs one of its
  unbounded retry loops for ever. The retry loops take a bound on their number of
  rounds, and \<open>Diverge\<close> is the result when the bound is used up.
\<close>

datatype 'a outcome = Return 'a | Raise error | Diverge

subsection \<open>The module \<open>random\<close>\<close>

text \<open>
  The generator is an infinite stream of naturals; every draw consumes one element.
  \<open>randint(a, b)\<close> is uniform on \<open>[a, b]\<close>, \<open>choice(seq)\<close> indexes a non-empty
  sequence (and raises \<open>IndexError\<close> on an empty one), \<open>random() > 0.8\<close> holds for one
  draw in five, and \<open>shuffle\<close> is the in-place Fisher-Yates loop of the library:
  \<open>for i in reversed(range(1, len(x))): j = randbelow(i + 1); x[i], x[j] = x[j], x[i]\<close>.
\<close>

type_synonym rng = "nat stream"

definition randint :: "int \<Rightarrow> int \<Rightarrow> rng \<Rightarrow> int \<times> rng" where
  "randint a b g = (a + int (shd g mod nat (b - a + 1)), stl g)"

definition choice :: "'a list \<Rightarrow> rng \<Rightarrow> error + ('a \<times> rng)" where
  "choice seq g =
     (if seq = [] then Inl IndexError else Inr (seq ! (shd g mod length seq), stl g))"

definition random_gt_08 :: "rng \<Rightarrow> bool \<times> rng" where
  "random_gt_08 g = (shd g mod 5 = 4, stl g)"

fun shuffle_from :: "nat \<Rightarrow> 'a list \<Rightarrow> rng \<Rightarrow> 'a list \<times> rng" where
  "shuffle_from 0 x g = (x, g)"
| "shuffle_from (Suc i) x g =
     (let j = shd g mod (Suc i + 1)
      in shuffle_from i (x[Suc i := x ! j, j := x ! Suc i]) (stl g))"

definition shuffle :: "'a list \<Rightarrow> rng \<Rightarrow> 'a list \<times> rng" where
  "shuffle x g = shuffle_from (length x - 1) x g"

text \<open>A generator whose next \<open>n\<close> draws are all zero.\<close>

definition zeros :: "nat \<Rightarrow> rng \<Rightarrow> rng" where
  "zeros n g = replicate n 0 @- g"

section \<open>The checksum: \<open>table\<close> and \<open>s_securehash\<close>\<close>

text \<open>
  \<open>table\<close> is a list of eight dictionaries, each with the keys \<open>range(32, 128)\<close>;
  \<open>table[i][byte]\<close> is \<open>(b + (b << i) + (b >> i)) % 256\<close> with \<open>b = byte ^ 0x55\<close>.
  A key outside the range raises \<open>KeyError\<close>.
\<close>

definition table :: "nat \<Rightarrow> nat \<Rightarrow> nat option" where
  "table i byte =
     (if i < 8 \<and> 32 \<le> byte \<and> byte < 128
      then (let b = byte XOR 0x55 in Some ((b + push_bit i b + drop_bit i b) mod 256))
      else None)"

text \<open>The loop \<open>for i, byte in enumerate(plaintext): hsh[i%15] ^= table[i%8][byte]\<close>.\<close>

fun hash_loop :: "nat \<Rightarrow> nat list \<Rightarrow> nat list \<Rightarrow> error + nat list" where
  "hash_loop i [] hsh = Inr hsh"
| "hash_loop i (byte # bs) hsh =
     (case table (i mod 8) byte of
        None \<Rightarrow> Inl KeyError
      | Some t \<Rightarrow> hash_loop (i + 1) bs (hsh[i mod 15 := (hsh ! (i mod 15)) XOR t]))"

definition hexdigit :: "nat \<Rightarrow> nat" where
  "hexdigit d = (if d < 10 then 48 + d else 87 + d)"

definition hexlify :: "nat list \<Rightarrow> pystr" where
  "hexlify bs = concat (map (\<lambda>b. [hexdigit (b div 16), hexdigit (b mod 16)]) bs)"

text \<open>
  \<open>s_securehash\<close>: \<open>encode('ascii')\<close> raises on a code point above 127, the store
  \<open>hsh[15] = len(plaintext)\<close> into a bytearray raises \<open>ValueError\<close> above 255.
\<close>

definition s_securehash :: "pystr \<Rightarrow> error + pystr" where
  "s_securehash plaintext =
     (if \<exists>c \<in> set plaintext. 128 \<le> c then Inl UnicodeEncodeError
      else if 255 < length plaintext then Inl ValueError
      else (case hash_loop 0 plaintext ((replicate 16 0)[15 := length plaintext]) of
              Inl e \<Rightarrow> Inl e
            | Inr hsh \<Rightarrow> Inr (hexlify hsh)))"

section \<open>The ordering oracle: \<open>r_sort\<close>\<close>

text \<open>
  The two nested loops raise \<open>NotSortedException\<close> when some \<open>j > i\<close> has
  \<open>clone[j] < clone[i]\<close>; the bare \<open>except\<close> swallows it and the \<open>while True\<close> loop
  shuffles again. The elements are compared with \<open><\<close>; the program sorts strings, and
  the model takes any linearly ordered element type.
\<close>

definition not_sorted :: "'a::linorder list \<Rightarrow> bool" where
  "not_sorted clone =
     list_ex (\<lambda>i. list_ex (\<lambda>j. i < j \<and> clone ! j < clone ! i) [0..<length clone])
       [0..<length clone]"

fun r_sort_loop :: "nat \<Rightarrow> 'a::linorder list \<Rightarrow> rng \<Rightarrow> ('a list \<times> rng) outcome" where
  "r_sort_loop 0 clone g = Diverge"
| "r_sort_loop (Suc n) clone g =
     (case shuffle clone g of
        (clone', g') \<Rightarrow>
          if not_sorted clone' then r_sort_loop n clone' g' else Return (clone', g'))"

definition r_sort :: "nat \<Rightarrow> 'a::linorder list \<Rightarrow> rng \<Rightarrow> ('a list \<times> rng) outcome" where
  "r_sort fuel lst g = r_sort_loop fuel lst g"

section \<open>The stream cipher: \<open>s_encrypt\<close> and \<open>s_decrypt\<close>\<close>

text \<open>
  \<open>s_encrypt\<close> emits a tag (\<open>A\<close>, \<open>B\<close> or \<open>C\<close>) and a payload for every character.
  \<open>key[i % len(key)]\<close> raises \<open>ZeroDivisionError\<close> on an empty key.
\<close>

fun encrypt_from :: "nat \<Rightarrow> pystr \<Rightarrow> pystr \<Rightarrow> error + pystr" where
  "encrypt_from i [] key = Inr []"
| "encrypt_from i (c # cs) key =
     (if key = [] then Inl ZeroDivisionError
      else (let e = key ! (i mod length key) in
        if int c < int e - 32 then
          (case chr (int e - int c) of
             Inl err \<Rightarrow> Inl err
           | Inr p \<Rightarrow> (case encrypt_from (i + 1) cs key of
                         Inl err \<Rightarrow> Inl err
                       | Inr rest \<Rightarrow> Inr (of_char CHR ''A'' # p # rest)))
        else if int e < int c - 32 then
          (case chr (int c - int e) of
             Inl err \<Rightarrow> Inl err
           | Inr p \<Rightarrow> (case encrypt_from (i + 1) cs key of
                         Inl err \<Rightarrow> Inl err
                       | Inr rest \<Rightarrow> Inr (of_char CHR ''B'' # p # rest)))
        else
          (case encrypt_from (i + 1) cs key of
             Inl err \<Rightarrow> Inl err
           | Inr rest \<Rightarrow> Inr (of_char CHR ''C'' # c # rest))))"

definition s_encrypt :: "pystr \<Rightarrow> pystr \<Rightarrow> error + pystr" where
  "s_encrypt plaintext key = encrypt_from 0 plaintext key"

text \<open>
  One pass of the \<open>for\<close> loop of \<open>s_decrypt\<close>: the bytes at even indices are skipped,
  and for a byte \<open>c\<close> at an odd index \<open>i\<close> the list \<open>possibilities\<close> holds
  \<open>chr(ord(k) - ord(c))\<close> and \<open>chr(ord(k) + ord(c))\<close>, each unless \<open>chr\<close> raises, and
  \<open>c\<close> itself, with \<open>k = key[i // 2 % len(key)]\<close>; \<open>random.choice\<close> picks one.
\<close>

definition possibilities :: "nat \<Rightarrow> nat \<Rightarrow> nat list" where
  "possibilities k c =
     (case chr (int k - int c) of Inl _ \<Rightarrow> [] | Inr p \<Rightarrow> [p])
     @ (case chr (int k + int c) of Inl _ \<Rightarrow> [] | Inr p \<Rightarrow> [p])
     @ [c]"

fun decrypt_round :: "nat \<Rightarrow> pystr \<Rightarrow> pystr \<Rightarrow> rng \<Rightarrow> error + (pystr \<times> rng)" where
  "decrypt_round i [] key g = Inr ([], g)"
| "decrypt_round i (c # cs) key g =
     (if i mod 2 = 0 then decrypt_round (i + 1) cs key g
      else if key = [] then Inl ZeroDivisionError
      else (case choice (possibilities (key ! (i div 2 mod length key)) c) g of
              Inl err \<Rightarrow> Inl err
            | Inr (p, g') \<Rightarrow>
                (case decrypt_round (i + 1) cs key g' of
                   Inl err \<Rightarrow> Inl err
                 | Inr (rest, g'') \<Rightarrow> Inr (p # rest, g''))))"

text \<open>
  The loop \<open>while encrypted != s_encrypt("".join(plaintext), key)\<close>, starting from the
  empty plaintext; the first argument bounds the number of candidates generated.
\<close>

fun s_decrypt_loop :: "nat \<Rightarrow> pystr \<Rightarrow> pystr \<Rightarrow> pystr \<Rightarrow> rng \<Rightarrow> (pystr \<times> rng) outcome" where
  "s_decrypt_loop 0 encrypted key plaintext g =
     (case s_encrypt plaintext key of
        Inl err \<Rightarrow> Raise err
      | Inr again \<Rightarrow> if encrypted \<noteq> again then Diverge else Return (plaintext, g))"
| "s_decrypt_loop (Suc n) encrypted key plaintext g =
     (case s_encrypt plaintext key of
        Inl err \<Rightarrow> Raise err
      | Inr again \<Rightarrow>
          if encrypted \<noteq> again then
            (case decrypt_round 0 encrypted key g of
               Inl err \<Rightarrow> Raise err
             | Inr (cand, g') \<Rightarrow> s_decrypt_loop n encrypted key cand g')
          else Return (plaintext, g))"

definition s_decrypt :: "nat \<Rightarrow> pystr \<Rightarrow> pystr \<Rightarrow> rng \<Rightarrow> (pystr \<times> rng) outcome" where
  "s_decrypt fuel encrypted key g = s_decrypt_loop fuel encrypted key [] g"

text \<open>
  The character that a tag and a payload stand for under the key character \<open>e\<close>
  (used to state that \<open>s_encrypt\<close> is injective).
\<close>

definition decode_pair :: "nat \<Rightarrow> nat \<Rightarrow> nat \<Rightarrow> nat" where
  "decode_pair e tag pay =
     (if tag = of_char CHR ''A'' then e - pay
      else if tag = of_char CHR ''B'' then pay + e
      else pay)"

section \<open>Matrices: \<open>matmul\<close> and \<open>matdiv\<close>\<close>

text \<open>
  A matrix is a list of rows of Python integers. \<open>zip(*b)\<close> yields the columns of
  \<open>b\<close>, as many as the shortest row has entries, and none for the empty list;
  \<open>zip(r, c)\<close> stops at the shorter argument.
\<close>

type_synonym matrix = "int list list"

definition zip_star :: "'a list list \<Rightarrow> 'a list list" where
  "zip_star b =
     (if b = [] then []
      else map (\<lambda>j. map (\<lambda>row. row ! j) b) [0..<Min (set (map length b))])"

definition matmul :: "matrix \<Rightarrow> matrix \<Rightarrow> matrix" where
  "matmul a b = map (\<lambda>r. map (\<lambda>c. sum_list (map2 (*) r c)) (zip_star b)) a"

text \<open>
  A candidate has \<open>dim[1]\<close> rows of \<open>dim[0]\<close> entries, each \<open>randint(0, maxv)\<close>, drawn
  row by row.
\<close>

fun rand_row :: "nat \<Rightarrow> nat \<Rightarrow> rng \<Rightarrow> int list \<times> rng" where
  "rand_row 0 maxv g = ([], g)"
| "rand_row (Suc n) maxv g =
     (case randint 0 (int maxv) g of
        (v, g') \<Rightarrow> (case rand_row n maxv g' of (vs, g'') \<Rightarrow> (v # vs, g'')))"

fun rand_matrix :: "nat \<Rightarrow> nat \<Rightarrow> nat \<Rightarrow> rng \<Rightarrow> matrix \<times> rng" where
  "rand_matrix 0 cols maxv g = ([], g)"
| "rand_matrix (Suc n) cols maxv g =
     (case rand_row cols maxv g of
        (r, g') \<Rightarrow> (case rand_matrix n cols maxv g' of (rs, g'') \<Rightarrow> (r # rs, g'')))"

text \<open>The \<open>for\<close> loop over \<open>range(maxv ** 2 * dim[0] * dim[1] + 10)\<close> for one \<open>maxv\<close>.\<close>

fun matdiv_for :: "nat \<Rightarrow> nat \<Rightarrow> nat \<times> nat \<Rightarrow> matrix \<Rightarrow> matrix \<Rightarrow> rng
    \<Rightarrow> matrix option \<times> rng" where
  "matdiv_for 0 maxv dim c b g = (None, g)"
| "matdiv_for (Suc n) maxv dim c b g =
     (case rand_matrix (snd dim) (fst dim) maxv g of
        (cand, g') \<Rightarrow>
          if matmul cand b = c then (Some cand, g') else matdiv_for n maxv dim c b g')"

text \<open>The \<open>while True\<close> loop; the first argument bounds the values of \<open>maxv\<close> tried.\<close>

fun matdiv_while :: "nat \<Rightarrow> nat \<Rightarrow> nat \<times> nat \<Rightarrow> matrix \<Rightarrow> matrix \<Rightarrow> rng
    \<Rightarrow> (matrix \<times> rng) outcome" where
  "matdiv_while 0 maxv dim c b g = Diverge"
| "matdiv_while (Suc fuel) maxv dim c b g =
     (let maxv' = maxv + 1 in
      case matdiv_for (maxv' ^ 2 * fst dim * snd dim + 10) maxv' dim c b g of
        (Some cand, g') \<Rightarrow> Return (cand, g')
      | (None, g') \<Rightarrow> matdiv_while fuel maxv' dim c b g')"

definition matdiv :: "nat \<Rightarrow> matrix \<Rightarrow> matrix \<Rightarrow> rng \<Rightarrow> (matrix \<times> rng) outcome" where
  "matdiv fuel c b g =
     (case b of
        [] \<Rightarrow> Raise IndexError
      | b0 # _ \<Rightarrow> matdiv_while fuel 0 (length b, length b0) c b g)"

text \<open>
  A generator on which the next \<open>k\<close> rounds of the \<open>while\<close> loop, those for the values
  \<open>maxv + 1\<close> to \<open>maxv + k\<close>, draw nothing but zeros.
\<close>

fun failed_rounds :: "nat \<Rightarrow> nat \<Rightarrow> nat \<times> nat \<Rightarrow> rng \<Rightarrow> rng" where
  "failed_rounds 0 maxv dim g = g"
| "failed_rounds (Suc k) maxv dim g =
     zeros (((maxv + 1) ^ 2 * fst dim * snd dim + 10) * (snd dim * fst dim))
       (failed_rounds k (maxv + 1) dim g)"

section \<open>Python strings: \<open>str\<close>, \<open>repr\<close>, \<open>join\<close>, \<open>split\<close>, \<open>int\<close>, \<open>eval\<close>\<close>

text \<open>\<open>str(n)\<close> and \<open>repr(n)\<close> of an integer: its decimal digits, with a minus sign.\<close>

function str_nat :: "nat \<Rightarrow> pystr" where
  "str_nat n = (if n < 10 then [48 + n] else str_nat (n div 10) @ [48 + n mod 10])"
  by pat_completeness auto
termination
  by (relation "measure id") auto

declare str_nat.simps [simp del]

definition str_int :: "int \<Rightarrow> pystr" where
  "str_int n = (if n < 0 then of_char CHR ''-'' # str_nat (nat (- n)) else str_nat (nat n))"

text \<open>\<open>sep.join(xs)\<close>.\<close>

fun join :: "pystr \<Rightarrow> pystr list \<Rightarrow> pystr" where
  "join sep [] = []"
| "join sep [x] = x"
| "join sep (x # y # ys) = x @ sep @ join sep (y # ys)"

text \<open>\<open>repr\<close> of a list of integers and of a list of such lists.\<close>

definition repr_row :: "int list \<Rightarrow> pystr" where
  "repr_row r = str_of ''['' @ join (str_of '', '') (map str_int r) @ str_of '']''"

definition repr_matrix :: "matrix \<Rightarrow> pystr" where
  "repr_matrix m = str_of ''['' @ join (str_of '', '') (map repr_row m) @ str_of '']''"

text \<open>\<open>s.split(c)\<close> for a separator of one character: never empty.\<close>

fun split_char :: "nat \<Rightarrow> pystr \<Rightarrow> pystr list" where
  "split_char c [] = [[]]"
| "split_char c (x # xs) =
     (case split_char c xs of
        [] \<Rightarrow> [[]]
      | p # ps \<Rightarrow> if x = c then [] # p # ps else (x # p) # ps)"

text \<open>
  \<open>int(s)\<close> on a string: surrounding whitespace is stripped, a sign may follow, then
  decimal digits, where single underscores may separate digits (as Python 3.6 and
  later read them); anything else raises \<open>ValueError\<close>. The artifact format is ASCII, and the model covers the ASCII
  whitespace and digits only: a code point above 127 is rejected.
\<close>

definition is_digit :: "nat \<Rightarrow> bool" where
  "is_digit c = (48 \<le> c \<and> c \<le> 57)"

definition is_space :: "nat \<Rightarrow> bool" where
  "is_space c = ((9 \<le> c \<and> c \<le> 13) \<or> (28 \<le> c \<and> c \<le> 32))"

definition strip :: "pystr \<Rightarrow> pystr" where
  "strip s = rev (dropWhile is_space (rev (dropWhile is_space s)))"

text \<open>The value of a digit string with underscores; the flag says a digit came last.\<close>

fun digits_value :: "bool \<Rightarrow> nat \<Rightarrow> pystr \<Rightarrow> nat option" where
  "digits_value after_digit acc [] = (if after_digit then Some acc else None)"
| "digits_value after_digit acc (c # cs) =
     (if is_digit c then digits_value True (10 * acc + (c - 48)) cs
      else if c = of_char CHR ''_'' \<and> after_digit then digits_value False acc cs
      else None)"

definition py_int :: "pystr \<Rightarrow> error + int" where
  "py_int s =
     (let t = strip s;
          neg = (t \<noteq> [] \<and> hd t = of_char CHR ''-'');
          u = (if t \<noteq> [] \<and> (hd t = of_char CHR ''-'' \<or> hd t = of_char CHR ''+'')
               then tl t else t)
      in case digits_value False 0 u of
           None \<Rightarrow> Inl ValueError
         | Some v \<Rightarrow> Inr (if neg then - int v else int v))"

text \<open>
  \<open>eval\<close> is applied to the matrix literals of an artifact. It is modelled on the
  literals that \<open>repr\<close> writes: rows in brackets separated by a comma and a space,
  entries in canonical decimal. Any other string is reported as \<open>SyntaxError\<close>;
  nothing is claimed about what Python's \<open>eval\<close> does with it.
\<close>

definition eval_int :: "pystr \<Rightarrow> error + int" where
  "eval_int s =
     (let neg = (s \<noteq> [] \<and> hd s = of_char CHR ''-'');
          u = (if neg then tl s else s)
      in case digits_value False 0 u of
           None \<Rightarrow> Inl SyntaxError
         | Some v \<Rightarrow>
             (let n = (if neg then - int v else int v)
              in if str_int n = s then Inr n else Inl SyntaxError))"

fun eval_items :: "bool \<Rightarrow> pystr list \<Rightarrow> error + int list" where
  "eval_items first [] = Inr []"
| "eval_items first (x # xs) =
     (case (if first then Inr x
            else (case x of [] \<Rightarrow> Inl SyntaxError
                  | c # r \<Rightarrow> if c = of_char CHR '' '' then Inr r else Inl SyntaxError)) of
        Inl e \<Rightarrow> Inl e
      | Inr t \<Rightarrow>
          (case eval_int t of
             Inl e \<Rightarrow> Inl e
           | Inr n \<Rightarrow> (case eval_items False xs of Inl e \<Rightarrow> Inl e | Inr ns \<Rightarrow> Inr (n # ns))))"

definition eval_row_body :: "pystr \<Rightarrow> error + int list" where
  "eval_row_body s = (if s = [] then Inr [] else eval_items True (split_char (of_char CHR '','') s))"

fun eval_rows :: "bool \<Rightarrow> pystr list \<Rightarrow> error + matrix" where
  "eval_rows first [] = Inr []"
| "eval_rows first (x # xs) =
     (let opening = (if first then str_of ''[['' else str_of '', ['')
      in if take (length opening) x \<noteq> opening then Inl SyntaxError
         else (case eval_row_body (drop (length opening) x) of
                 Inl e \<Rightarrow> Inl e
               | Inr r \<Rightarrow> (case eval_rows False xs of Inl e \<Rightarrow> Inl e | Inr rs \<Rightarrow> Inr (r # rs))))"

definition eval_matrix :: "pystr \<Rightarrow> error + matrix" where
  "eval_matrix s =
     (let pieces = split_char (of_char CHR '']'') s; n = length pieces
      in if n = 2 \<and> pieces = [str_of ''['', []] then Inr []
         else if 3 \<le> n \<and> pieces ! (n - 1) = [] \<and> pieces ! (n - 2) = []
         then eval_rows True (take (n - 2) pieces)
         else Inl SyntaxError)"

section \<open>Compression: \<open>s_compress\<close>\<close>

text \<open>The escaping of the three reserved characters into tokens.\<close>

definition escape :: "nat \<Rightarrow> pystr" where
  "escape c =
     (if c = of_char CHR ''@'' then str_of ''@000''
      else if c = 10 then str_of ''@999''
      else if c = of_char CHR ''/'' then str_of ''@998''
      else [c])"

text \<open>\<open>'@' + '0' * (3 - len(str(n))) + str(n)\<close>; a negative repeat count gives \<open>''\<close>.\<close>

definition ref :: "nat \<Rightarrow> pystr" where
  "ref n = of_char CHR ''@'' # replicate (3 - length (str_nat n)) (of_char CHR ''0'') @ str_nat n"

text \<open>
  The first row of \<open>lst1\<close> for a token: the digits of an escape, each plus ten, or the
  code point of a one-character token in the first cell. \<open>int(c)\<close> of a non-digit
  raises \<open>ValueError\<close>, \<open>ord\<close> of a longer string raises \<open>TypeError\<close>, and
  \<open>tokens[i][0]\<close> of an empty token raises \<open>IndexError\<close>.
\<close>

fun digit_row :: "pystr \<Rightarrow> error + int list" where
  "digit_row [] = Inr []"
| "digit_row (c # cs) =
     (if is_digit c
      then (case digit_row cs of Inl e \<Rightarrow> Inl e | Inr r \<Rightarrow> Inr ((int (c - 48) + 10) # r))
      else Inl ValueError)"

definition lst1 :: "pystr \<Rightarrow> error + matrix" where
  "lst1 token =
     (case token of
        [] \<Rightarrow> Inl IndexError
      | c # cs \<Rightarrow>
          if c = of_char CHR ''@''
          then (case digit_row cs of
                  Inl e \<Rightarrow> Inl e
                | Inr r \<Rightarrow> Inr [r, [1, 2, 3], [3, 2, 1]])
          else if cs = [] then Inr [[int c, 0, 0], [1, 2, 3], [3, 2, 1]]
          else Inl TypeError)"

text \<open>The lists that the scan of the tokens builds.\<close>

record cstate =
  chunks :: nat
  l_chunks :: "pystr list list"
  head :: "pystr list"
  body :: "pystr list"
  foot :: "pystr list"

text \<open>
  The \<open>while i < len(tokens)\<close> loop. \<open>random.random()\<close> is drawn for the chunk
  test only when \<open>i < len(tokens) - 5\<close> holds, and for the matrix test only when the
  chunk branch was not taken; the loop is left by \<open>break\<close> once 997 chunks exist.
\<close>

function compress_loop :: "pystr list \<Rightarrow> matrix \<Rightarrow> nat \<Rightarrow> cstate \<Rightarrow> rng
    \<Rightarrow> error + (cstate \<times> rng)" where
  "compress_loop tokens m_encryptor i st g =
     (if \<not> i < length tokens then Inr (st, g)
      else if 997 \<le> chunks st then Inr (st, g)
      else (case (if int i < int (length tokens) - 5 then random_gt_08 g else (False, g)) of
        (chunk_time, g1) \<Rightarrow>
          if chunk_time then
            (let chunk = take 5 (drop i tokens); n = chunks st + 1
             in case s_securehash (concat (chunk @ chunk @ chunk)) of
                  Inl e \<Rightarrow> Inl e
                | Inr h \<Rightarrow>
                    compress_loop tokens m_encryptor (i + 4 + 1)
                      (st\<lparr>chunks := n,
                          l_chunks := l_chunks st @ [chunk],
                          head := head st @ [concat chunk @ str_of ''/''],
                          body := body st @ [ref n],
                          foot := foot st @ [h]\<rparr>) g1)
          else (case random_gt_08 g1 of
            (matrix_time, g2) \<Rightarrow>
              if matrix_time then
                (case lst1 (tokens ! i) of
                   Inl e \<Rightarrow> Inl e
                 | Inr l \<Rightarrow>
                     compress_loop tokens m_encryptor (i + 1)
                       (st\<lparr>body := body st
                            @ [str_of ''/'' @ repr_matrix (matmul l m_encryptor) @ str_of ''/'']\<rparr>)
                       g2)
              else compress_loop tokens m_encryptor (i + 1)
                     (st\<lparr>body := body st @ [tokens ! i]\<rparr>) g2)))"
  by pat_completeness auto
termination
  by (relation "measure (\<lambda>(tokens, m, i, st, g). length tokens - i)") auto

declare compress_loop.simps [simp del]

text \<open>
  \<open>indices = sorted(enumerate(l_chunks), key=lambda x: (x[1], x[0]))\<close>, and the
  rewriting of every body part that starts with \<open>@\<close>: the part is replaced for every
  \<open>cv\<close> with \<open>indices[cv][0] == rest - 1\<close>.
\<close>

definition sorted_indices :: "pystr list list \<Rightarrow> (nat \<times> pystr list) list" where
  "sorted_indices l = sort_key (\<lambda>x. (snd x, fst x)) (enumerate 0 l)"

definition renumber :: "(nat \<times> pystr list) list \<Rightarrow> pystr \<Rightarrow> error + pystr" where
  "renumber indices part =
     (case part of
        [] \<Rightarrow> Inl IndexError
      | c # cs \<Rightarrow>
          if c = of_char CHR ''@''
          then (case py_int cs of
                  Inl e \<Rightarrow> Inl e
                | Inr rest \<Rightarrow>
                    Inr (foldl (\<lambda>p cv. if int (fst (indices ! cv)) = rest - 1
                                        then ref (cv + 1) else p)
                           part [0..<length indices]))
          else Inr part)"

fun renumber_all :: "(nat \<times> pystr list) list \<Rightarrow> pystr list \<Rightarrow> error + pystr list" where
  "renumber_all indices [] = Inr []"
| "renumber_all indices (part # parts) =
     (case renumber indices part of
        Inl e \<Rightarrow> Inl e
      | Inr p \<Rightarrow> (case renumber_all indices parts of Inl e \<Rightarrow> Inl e | Inr ps \<Rightarrow> Inr (p # ps)))"

definition encryption_keys :: "pystr list" where
  "encryption_keys =
     [str_of ''!wes!'', str_of ''!wesley!'', str_of ''!scott!'', str_of ''!wscott!'',
      str_of ''!northbank!'']"

text \<open>The three rows of \<open>m_encryptor\<close>, each of three \<open>randint(1, 3)\<close>.\<close>

fun randint_row :: "nat \<Rightarrow> rng \<Rightarrow> int list \<times> rng" where
  "randint_row 0 g = ([], g)"
| "randint_row (Suc n) g =
     (case randint 1 3 g of
        (v, g') \<Rightarrow> (case randint_row n g' of (vs, g'') \<Rightarrow> (v # vs, g'')))"

fun randint_rows :: "nat \<Rightarrow> rng \<Rightarrow> matrix \<times> rng" where
  "randint_rows 0 g = ([], g)"
| "randint_rows (Suc n) g =
     (case randint_row 3 g of
        (r, g') \<Rightarrow> (case randint_rows n g' of (rs, g'') \<Rightarrow> (r # rs, g'')))"

text \<open>
  \<open>s_compress_parts\<close> is \<open>s_compress\<close> up to its last line: it returns the lists
  \<open>head\<close>, \<open>body\<close> and \<open>foot\<close>; \<open>s_compress\<close> joins them. The calls of \<open>print\<close>
  are left out.
\<close>

definition s_compress_parts :: "pystr \<Rightarrow> rng
    \<Rightarrow> error + (pystr list \<times> pystr list \<times> pystr list)" where
  "s_compress_parts plaintext g =
     (case choice encryption_keys g of
        Inl e \<Rightarrow> Inl e
      | Inr (encryption_key, g1) \<Rightarrow>
          (case s_encrypt plaintext encryption_key of
             Inl e \<Rightarrow> Inl e
           | Inr encrypted_plaintext \<Rightarrow>
               (case randint_rows 3 g1 of
                  (m_encryptor, g2) \<Rightarrow>
                    (case compress_loop (map escape encrypted_plaintext) m_encryptor 0
                            \<lparr>chunks = 0, l_chunks = [],
                             head = [str_of ''001'', encryption_key @ str_of ''/'',
                                     repr_matrix m_encryptor @ str_of ''/''],
                             body = [], foot = []\<rparr> g2 of
                       Inl e \<Rightarrow> Inl e
                     | Inr (st, g3) \<Rightarrow>
                         (case renumber_all (sorted_indices (l_chunks st)) (body st) of
                            Inl e \<Rightarrow> Inl e
                          | Inr body' \<Rightarrow> Inr (head st, body', foot st))))))"

definition s_compress :: "pystr \<Rightarrow> rng \<Rightarrow> error + pystr" where
  "s_compress plaintext g =
     (case s_compress_parts plaintext g of
        Inl e \<Rightarrow> Inl e
      | Inr (h, b, f) \<Rightarrow> Inr (join [10] [concat h, concat b, concat f]))"

section \<open>Decompression: \<open>s_decompress\<close>\<close>

text \<open>
  \<open>re.sub('/(.+?)/', f, body)\<close>. A match starts at a slash, takes at least one
  character and as few as possible up to the next slash; the dot does not match a
  newline. \<open>find_close\<close> looks for that closing slash; where there is none the slash
  is copied and the scan goes on behind it. The replacement function may raise, may
  not return, and draws from the generator.
\<close>

fun find_close :: "pystr \<Rightarrow> (pystr \<times> pystr) option" where
  "find_close [] = None"
| "find_close (x # xs) =
     (if x = of_char CHR ''/'' then Some ([], xs)
      else if x = 10 then None
      else (case find_close xs of None \<Rightarrow> None | Some (grp, rest) \<Rightarrow> Some (x # grp, rest)))"

definition match_slashes :: "pystr \<Rightarrow> (pystr \<times> pystr) option" where
  "match_slashes s =
     (case s of
        [] \<Rightarrow> None
      | c # r \<Rightarrow>
          if c = 10 then None
          else (case find_close r of None \<Rightarrow> None | Some (grp, rest) \<Rightarrow> Some (c # grp, rest)))"

lemma find_close_shorter: "find_close s = Some (grp, rest) \<Longrightarrow> length rest < length s"
  by (induction s arbitrary: grp) (auto split: if_splits option.splits)

lemma match_slashes_shorter: "match_slashes s = Some (grp, rest) \<Longrightarrow> length rest < length s"
  by (auto simp: match_slashes_def split: list.splits if_splits option.splits
        dest: find_close_shorter)

function re_sub_slashes :: "(pystr \<Rightarrow> rng \<Rightarrow> (pystr \<times> rng) outcome) \<Rightarrow> pystr \<Rightarrow> rng
    \<Rightarrow> (pystr \<times> rng) outcome" where
  "re_sub_slashes f [] g = Return ([], g)"
| "re_sub_slashes f (x # xs) g =
     (case (if x = of_char CHR ''/'' then match_slashes xs else None) of
        Some (grp, rest) \<Rightarrow>
          (case f grp g of
             Return (r, g') \<Rightarrow>
               (case re_sub_slashes f rest g' of
                  Return (out, g'') \<Rightarrow> Return (r @ out, g'')
                | Raise e \<Rightarrow> Raise e
                | Diverge \<Rightarrow> Diverge)
           | Raise e \<Rightarrow> Raise e
           | Diverge \<Rightarrow> Diverge)
      | None \<Rightarrow>
          (case re_sub_slashes f xs g of
             Return (out, g') \<Rightarrow> Return (x # out, g')
           | Raise e \<Rightarrow> Raise e
           | Diverge \<Rightarrow> Diverge))"
  by pat_completeness auto
termination
  by (relation "measure (\<lambda>(f, s, g). length s)")
     (auto split: if_splits dest: match_slashes_shorter)

text \<open>
  \<open>re.sub('@([0-9]{3})', f, body)\<close>: an \<open>@\<close> followed by three ASCII digits is
  replaced by what \<open>f\<close> returns for the digits, and the scan goes on behind them.
\<close>

fun re_sub_at :: "(pystr \<Rightarrow> error + pystr) \<Rightarrow> pystr \<Rightarrow> error + pystr" where
  "re_sub_at f (a # d1 # d2 # d3 # rest) =
     (if a = of_char CHR ''@'' \<and> is_digit d1 \<and> is_digit d2 \<and> is_digit d3
      then (case f [d1, d2, d3] of
              Inl e \<Rightarrow> Inl e
            | Inr r \<Rightarrow> (case re_sub_at f rest of Inl e \<Rightarrow> Inl e | Inr out \<Rightarrow> Inr (r @ out)))
      else (case re_sub_at f (d1 # d2 # d3 # rest) of
              Inl e \<Rightarrow> Inl e | Inr out \<Rightarrow> Inr (a # out)))"
| "re_sub_at f (a # xs) =
     (case re_sub_at f xs of Inl e \<Rightarrow> Inl e | Inr out \<Rightarrow> Inr (a # out))"
| "re_sub_at f [] = Inr []"

text \<open>
  The three replacement functions. \<open>matrix_fix\<close> reads \<open>soln[0][1]\<close> and
  \<open>soln[0][0]\<close>, which raise \<open>IndexError\<close> on a solution without them.
\<close>

definition matrix_fix :: "nat \<Rightarrow> matrix \<Rightarrow> pystr \<Rightarrow> rng \<Rightarrow> (pystr \<times> rng) outcome" where
  "matrix_fix fuel mkey grp g =
     (case eval_matrix grp of
        Inl e \<Rightarrow> Raise e
      | Inr lst \<Rightarrow>
          (case matdiv fuel lst mkey g of
             Raise e \<Rightarrow> Raise e
           | Diverge \<Rightarrow> Diverge
           | Return (soln, g') \<Rightarrow>
               (case soln of
                  [] \<Rightarrow> Raise IndexError
                | row # _ \<Rightarrow>
                    if length row < 2 then Raise IndexError
                    else if row ! 1 = 0
                    then (case chr (row ! 0) of
                            Inl e \<Rightarrow> Raise e
                          | Inr c \<Rightarrow> Return ([c], g'))
                    else Return (of_char CHR ''@'' # concat (map (\<lambda>i. str_int (i - 10)) row),
                                 g'))))"

definition reserved :: "pystr set" where
  "reserved = {str_of ''000'', str_of ''998'', str_of ''999''}"

definition num_value :: "pystr \<Rightarrow> nat" where
  "num_value num = foldl (\<lambda>acc d. 10 * acc + (d - 48)) 0 num"

text \<open>\<open>chunks[int(num) - 1]\<close>: a negative index counts from the end of the list.\<close>

definition replace :: "pystr list \<Rightarrow> pystr \<Rightarrow> error + pystr" where
  "replace dict num =
     (if num \<in> reserved then Inr (of_char CHR ''@'' # num)
      else (let i = int (num_value num) - 1;
                j = (if i < 0 then i + int (length dict) else i)
            in if 0 \<le> j \<and> j < int (length dict) then Inr (dict ! nat j)
               else Inl IndexError))"

definition replace_special :: "pystr \<Rightarrow> error + pystr" where
  "replace_special num =
     (if num = str_of ''000'' then Inr (str_of ''@'')
      else if num = str_of ''998'' then Inr (str_of ''/'')
      else Inr [10])"

text \<open>
  The three passes over the body, in the order of the source, followed by
  \<open>s_decrypt\<close>; \<open>dict\<close> is the list \<open>chunks\<close> of the source.
\<close>

definition decode_body :: "nat \<Rightarrow> pystr \<Rightarrow> matrix \<Rightarrow> pystr list \<Rightarrow> pystr \<Rightarrow> rng
    \<Rightarrow> (pystr \<times> rng) outcome" where
  "decode_body fuel key mkey dict body0 g =
     (case re_sub_slashes (matrix_fix fuel mkey) body0 g of
        Raise e \<Rightarrow> Raise e
      | Diverge \<Rightarrow> Diverge
      | Return (body1, g1) \<Rightarrow>
          (case re_sub_at (replace dict) body1 of
             Inl e \<Rightarrow> Raise e
           | Inr body2 \<Rightarrow>
               (case re_sub_at replace_special body2 of
                  Inl e \<Rightarrow> Raise e
                | Inr body3 \<Rightarrow> s_decrypt fuel body3 key g1)))"

text \<open>
  \<open>s_decompress\<close>. The unpacking of \<open>x.split('\n')\<close> into three names and of
  \<open>head.split('/')\<close> into \<open>key, mkey, *head\<close> raise \<open>ValueError\<close> on too few (or, for
  the first, too many) pieces; \<open>head[:-1]\<close> drops the last piece.
\<close>

definition s_decompress :: "nat \<Rightarrow> pystr \<Rightarrow> rng \<Rightarrow> (pystr \<times> rng) outcome" where
  "s_decompress fuel x g =
     (case py_int (take 3 x) of
        Inl e \<Rightarrow> Raise e
      | Inr version \<Rightarrow>
          (case split_char 10 (drop 3 x) of
             [head_s, body_s, foot_s] \<Rightarrow>
               (case split_char (of_char CHR ''/'') head_s of
                  key # mkey_s # entries \<Rightarrow>
                    (case eval_matrix mkey_s of
                       Inl e \<Rightarrow> Raise e
                     | Inr mkey \<Rightarrow>
                         (case r_sort fuel (butlast entries) g of
                            Raise e \<Rightarrow> Raise e
                          | Diverge \<Rightarrow> Diverge
                          | Return (dict, g1) \<Rightarrow> decode_body fuel key mkey dict body_s g1))
                | _ \<Rightarrow> Raise ValueError)
           | _ \<Rightarrow> Raise ValueError))"

section \<open>The body as a sequence of items\<close>







section \<open>The body as a record of what the scan did\<close>

text \<open>
  To state where each body part comes from, the scan is recorded as a list of slots:
  the k-th chunk cut from the tokens, a token replaced by a matrix literal (with the
  matrix \<open>lst1\<close> built for it), or a token copied. \<open>slot_tokens\<close> gives the tokens a
  slot consumed, \<open>written\<close> the body part that stands for it, where \<open>num\<close> numbers the
  chunks: by extraction order before the renumbering, by \<open>sorted_rank\<close> after it.
  \<open>sorted_rank l k\<close> is the 1-based position of the k-th chunk in
  \<open>sorted(enumerate(l_chunks), key=lambda x: (x[1], x[0]))\<close>.
\<close>

datatype slot = Chunk nat | Matrix pystr matrix | Literal pystr

fun slot_tokens :: "pystr list list \<Rightarrow> slot \<Rightarrow> pystr list" where
  "slot_tokens l (Chunk k) = l ! (k - 1)"
| "slot_tokens l (Matrix t lm) = [t]"
| "slot_tokens l (Literal t) = [t]"

fun written :: "matrix \<Rightarrow> (nat \<Rightarrow> nat) \<Rightarrow> slot \<Rightarrow> pystr" where
  "written m num (Chunk k) = ref (num k)"
| "written m num (Matrix t lm) = str_of ''/'' @ repr_matrix (matmul lm m) @ str_of ''/''"
| "written m num (Literal t) = t"

definition is_token :: "pystr \<Rightarrow> bool" where
  "is_token t =
     (t = str_of ''@000'' \<or> t = str_of ''@999'' \<or> t = str_of ''@998''
      \<or> (length t = 1 \<and> hd t \<noteq> of_char CHR ''@'' \<and> hd t \<noteq> 10
          \<and> hd t \<noteq> of_char CHR ''/''))"

fun wf_slot :: "nat \<Rightarrow> slot \<Rightarrow> bool" where
  "wf_slot n (Chunk k) = (1 \<le> k \<and> k \<le> n)"
| "wf_slot n (Matrix t lm) = (lst1 t = Inr lm)"
| "wf_slot n (Literal t) = is_token t"

fun chunk_numbers :: "slot list \<Rightarrow> nat list" where
  "chunk_numbers [] = []"
| "chunk_numbers (Chunk k # slots) = k # chunk_numbers slots"
| "chunk_numbers (s # slots) = chunk_numbers slots"

fun index_of :: "'a \<Rightarrow> 'a list \<Rightarrow> nat" where
  "index_of x [] = 0"
| "index_of x (y # ys) = (if x = y then 0 else Suc (index_of x ys))"

definition sorted_rank :: "pystr list list \<Rightarrow> nat \<Rightarrow> nat" where
  "sorted_rank l k = index_of (k - 1) (map fst (sorted_indices l)) + 1"

section \<open>The first pass as the specification words it\<close>







section \<open>Properties of the checksum\<close>

lemma hash_loop_keeps_last:
  assumes "\<forall>c \<in> set p. 32 \<le> c \<and> c < 128" and "length hsh = 16"
  shows "\<exists>h. hash_loop i p hsh = Inr h \<and> length h = 16 \<and> h ! 15 = hsh ! 15"
  using assms
proof (induction p arbitrary: i hsh)
  case Nil
  then show ?case by simp
next
  case (Cons byte bs)
  have lt: "i mod 8 < 8" by simp
  from Cons.prems obtain t where t: "table (i mod 8) byte = Some t"
    by (auto simp: table_def Let_def)
  let ?h = "hsh[i mod 15 := (hsh ! (i mod 15)) XOR t]"
  have ne: "i mod 15 \<noteq> 15"
    using mod_less_divisor [of 15 i] by linarith
  have "length ?h = 16" using Cons.prems by simp
  moreover have "\<forall>c \<in> set bs. 32 \<le> c \<and> c < 128" using Cons.prems by simp
  ultimately obtain h where h: "hash_loop (i + 1) bs ?h = Inr h" "length h = 16"
    "h ! 15 = ?h ! 15"
    using Cons.IH by blast
  have "?h ! 15 = hsh ! 15" using ne by simp
  with h t show ?case by simp
qed

lemma length_hexlify: "length (hexlify bs) = 2 * length bs"
  by (induction bs) (simp_all add: hexlify_def)

lemma hexlify_append: "hexlify (xs @ ys) = hexlify xs @ hexlify ys"
  by (simp add: hexlify_def)

lemma drop_hexlify_16:
  assumes "length h = 16"
  shows "drop 30 (hexlify h) = hexlify [h ! 15]"
proof -
  have "take (Suc 15) h = take 15 h @ [h ! 15]"
    using assms by (intro take_Suc_conv_app_nth) simp
  moreover have "take (Suc 15) h = h" using assms by simp
  ultimately have h: "h = take 15 h @ [h ! 15]" by simp
  have "length (hexlify (take 15 h)) = 30"
    using assms by (simp add: length_hexlify)
  then have "drop 30 (hexlify (take 15 h) @ hexlify [h ! 15]) = hexlify [h ! 15]"
    by simp
  then show ?thesis using h hexlify_append by metis
qed

text \<open>
  C10. For every ASCII string whose characters lie in \<open>[32, 128)\<close> and whose length is
  at most 255, \<open>s_securehash\<close> returns a digest of 32 hex characters whose last two
  characters encode the length: the loop writes bytes 0 to 14 only.
\<close>

theorem s_securehash_length_byte:
  assumes "\<forall>c \<in> set p. 32 \<le> c \<and> c < 128" and "length p \<le> 255"
  shows "\<exists>d. s_securehash p = Inr d \<and> length d = 32
             \<and> drop 30 d = [hexdigit (length p div 16), hexdigit (length p mod 16)]"
proof -
  let ?h0 = "(replicate 16 (0::nat))[15 := length p]"
  have len0: "length ?h0 = 16" by simp
  from hash_loop_keeps_last [OF assms(1) len0, of 0]
  obtain h where h: "hash_loop 0 p ?h0 = Inr h" "length h = 16" "h ! 15 = ?h0 ! 15"
    by blast
  have last: "h ! 15 = length p" using h(3) by simp
  have noenc: "\<not> (\<exists>c \<in> set p. 128 \<le> c)" using assms(1) by auto
  have "s_securehash p = Inr (hexlify h)"
    using noenc assms(2) h(1) by (simp add: s_securehash_def)
  moreover have "length (hexlify h) = 32" using h(2) by (simp add: length_hexlify)
  moreover have "drop 30 (hexlify h) = [hexdigit (length p div 16), hexdigit (length p mod 16)]"
    using drop_hexlify_16 [OF h(2)] last by (simp add: hexlify_def)
  ultimately show ?thesis by blast
qed

theorem s_securehash_length_byte_witness:
  "\<exists>d. s_securehash (str_of ''abcde'') = Inr d \<and> length d = 32
       \<and> drop 30 d = str_of ''05''"
  using s_securehash_length_byte [of "str_of ''abcde''"]
  by (simp add: str_of_def hexdigit_def)

section \<open>Unfolding on numerals\<close>

lemma randint_row_numeral:
  "randint_row (numeral k) g =
     (case randint 1 3 g of
        (v, g') \<Rightarrow> (case randint_row (pred_numeral k) g' of (vs, g'') \<Rightarrow> (v # vs, g'')))"
  by (simp add: numeral_eq_Suc)

lemma randint_rows_numeral:
  "randint_rows (numeral k) g =
     (case randint_row 3 g of
        (r, g') \<Rightarrow> (case randint_rows (pred_numeral k) g' of (rs, g'') \<Rightarrow> (r # rs, g'')))"
  by (simp add: numeral_eq_Suc)

lemma rand_row_numeral:
  "rand_row (numeral k) maxv g =
     (case randint 0 (int maxv) g of
        (v, g') \<Rightarrow> (case rand_row (pred_numeral k) maxv g' of (vs, g'') \<Rightarrow> (v # vs, g'')))"
  by (simp add: numeral_eq_Suc)

lemma rand_matrix_numeral:
  "rand_matrix (numeral k) cols maxv g =
     (case rand_row cols maxv g of
        (r, g') \<Rightarrow> (case rand_matrix (pred_numeral k) cols maxv g' of
                      (rs, g'') \<Rightarrow> (r # rs, g'')))"
  by (simp add: numeral_eq_Suc)

lemma matdiv_for_numeral:
  "matdiv_for (numeral k) maxv dim c b g =
     (case rand_matrix (snd dim) (fst dim) maxv g of
        (cand, g') \<Rightarrow>
          if matmul cand b = c then (Some cand, g')
          else matdiv_for (pred_numeral k) maxv dim c b g')"
  by (simp add: numeral_eq_Suc)

lemma matdiv_while_numeral:
  "matdiv_while (numeral k) maxv dim c b g =
     (let maxv' = maxv + 1 in
      case matdiv_for (maxv' ^ 2 * fst dim * snd dim + 10) maxv' dim c b g of
        (Some cand, g') \<Rightarrow> Return (cand, g')
      | (None, g') \<Rightarrow> matdiv_while (pred_numeral k) maxv' dim c b g')"
  by (simp add: numeral_eq_Suc)

lemma r_sort_loop_numeral:
  "r_sort_loop (numeral k) clone g =
     (case shuffle clone g of
        (clone', g') \<Rightarrow>
          if not_sorted clone' then r_sort_loop (pred_numeral k) clone' g'
          else Return (clone', g'))"
  by (simp add: numeral_eq_Suc)

lemma s_decrypt_loop_numeral:
  "s_decrypt_loop (numeral k) encrypted key plaintext g =
     (case s_encrypt plaintext key of
        Inl err \<Rightarrow> Raise err
      | Inr again \<Rightarrow>
          if encrypted \<noteq> again then
            (case decrypt_round 0 encrypted key g of
               Inl err \<Rightarrow> Raise err
             | Inr (cand, g') \<Rightarrow> s_decrypt_loop (pred_numeral k) encrypted key cand g')
          else Return (plaintext, g))"
  by (simp add: numeral_eq_Suc)

section \<open>Skipping the candidates drawn from zeros\<close>

lemma zeros_add: "zeros (m + n) g = zeros m (zeros n g)"
  by (simp add: zeros_def replicate_add shift_append)

lemma zeros_Suc: "zeros (Suc n) g = 0 ## zeros n g"
  by (simp add: zeros_def)

lemma rand_row_zeros: "rand_row n maxv (zeros n g) = (replicate n 0, g)"
  by (induction n) (simp_all add: zeros_Suc randint_def, simp add: zeros_def)

lemma rand_matrix_zeros:
  "rand_matrix r c maxv (zeros (r * c) g) = (replicate r (replicate c 0), g)"
proof (induction r)
  case 0
  then show ?case by (simp add: zeros_def)
next
  case (Suc r)
  have "zeros (Suc r * c) g = zeros c (zeros (r * c) g)"
    by (simp add: zeros_add)
  with Suc show ?case by (simp add: rand_row_zeros)
qed

lemma matdiv_for_zeros:
  assumes "matmul (replicate (snd dim) (replicate (fst dim) 0)) b \<noteq> c"
  shows "matdiv_for k maxv dim c b (zeros (k * (snd dim * fst dim)) g) = (None, g)"
proof (induction k)
  case 0
  then show ?case by (simp add: zeros_def)
next
  case (Suc k)
  have "zeros (Suc k * (snd dim * fst dim)) g
        = zeros (snd dim * fst dim) (zeros (k * (snd dim * fst dim)) g)"
    by (simp add: zeros_add)
  with Suc assms show ?case by (simp add: rand_matrix_zeros)
qed

lemma matdiv_while_skip:
  assumes "0 < fuel"
    and "n = ((maxv + 1) ^ 2 * fst dim * snd dim + 10) * (snd dim * fst dim)"
    and "matmul (replicate (snd dim) (replicate (fst dim) 0)) b \<noteq> c"
  shows "matdiv_while fuel maxv dim c b (zeros n g) = matdiv_while (fuel - 1) (maxv + 1) dim c b g"
proof -
  from assms(1) obtain f where f: "fuel = Suc f" by (cases fuel) simp_all
  show ?thesis
    unfolding f assms(2) by (simp add: Let_def matdiv_for_zeros [OF assms(3)])
qed

lemma replicate_numeral_Cons:
  "replicate (numeral k) x = x # replicate (pred_numeral k) x"
  by (simp add: numeral_eq_Suc)

lemmas compress_eval = replicate_numeral_Cons
  s_compress_parts_def choice_def encryption_keys_def s_encrypt_def str_of_def chr_def
  randint_def compress_loop.simps random_gt_08_def escape_def s_securehash_def table_def
  hexlify_def hexdigit_def ref_def str_nat.simps repr_matrix_def repr_row_def str_int_def
  matmul_def zip_star_def lst1_def renumber_def py_int_def strip_def is_space_def is_digit_def
  sorted_indices_def Let_def randint_row_numeral randint_rows_numeral

lemma matdiv_while_failed_rounds:
  assumes "matmul (replicate (snd dim) (replicate (fst dim) 0)) b \<noteq> c"
  shows "matdiv_while (k + fuel) maxv dim c b (failed_rounds k maxv dim g)
         = matdiv_while fuel (maxv + k) dim c b g"
proof (induction k arbitrary: maxv)
  case 0
  then show ?case by simp
next
  case (Suc k)
  have "matdiv_while (Suc k + fuel) maxv dim c b (failed_rounds (Suc k) maxv dim g)
        = matdiv_while (k + fuel) (maxv + 1) dim c b (failed_rounds k (maxv + 1) dim g)"
    using matdiv_while_skip [OF _ refl assms, of "Suc k + fuel" maxv] by simp
  also have "\<dots> = matdiv_while fuel (maxv + 1 + k) dim c b g"
    by (rule Suc.IH)
  finally show ?case by simp
qed

lemmas matrix_eval =
  matmul_def zip_star_def randint_def Let_def
  rand_row_numeral rand_matrix_numeral matdiv_for_numeral matdiv_while_numeral
  replicate_numeral_Cons

lemmas decompress_eval =
  s_decompress_def decode_body_def matrix_fix_def replace_def replace_special_def
  reserved_def num_value_def eval_matrix_def eval_row_body_def eval_int_def
  py_int_def strip_def is_space_def is_digit_def str_of_def str_int_def str_nat.simps
  match_slashes_def chr_def
  r_sort_def shuffle_def not_sorted_def s_decrypt_def s_encrypt_def possibilities_def
  choice_def Let_def
  r_sort_loop_numeral s_decrypt_loop_numeral replicate_numeral_Cons

section \<open>Properties of the ordering oracle\<close>

lemma shuffle_from_mset:
  "i < length x \<Longrightarrow> shuffle_from i x g = (y, g') \<Longrightarrow> mset y = mset x"
proof (induction i arbitrary: x g)
  case 0
  then show ?case by simp
next
  case (Suc i)
  let ?j = "shd g mod (Suc i + 1)"
  let ?x = "x[Suc i := x ! ?j, ?j := x ! Suc i]"
  have j: "?j < length x"
    using Suc.prems(1) mod_less_divisor [of "Suc i + 1" "shd g"] by linarith
  have swap: "mset ?x = mset x"
    using mset_swap [OF j Suc.prems(1)] .
  have "shuffle_from i ?x (stl g) = (y, g')"
    using Suc.prems(2) by (simp add: Let_def)
  moreover have "i < length ?x" using Suc.prems(1) by simp
  ultimately have "mset y = mset ?x" by (rule Suc.IH [rotated])
  with swap show ?case by simp
qed

lemma shuffle_mset: "shuffle x g = (y, g') \<Longrightarrow> mset y = mset x"
proof (cases "x = []")
  case True
  then show "shuffle x g = (y, g') \<Longrightarrow> mset y = mset x"
    by (simp add: shuffle_def)
next
  case False
  then have "length x - 1 < length x" by (cases x) simp_all
  then show "shuffle x g = (y, g') \<Longrightarrow> mset y = mset x"
    unfolding shuffle_def by (rule shuffle_from_mset)
qed

lemma not_sorted_iff:
  "not_sorted xs \<longleftrightarrow> (\<exists>i j. i < j \<and> j < length xs \<and> xs ! j < xs ! i)"
proof
  assume "not_sorted xs"
  then obtain i j where "i < length xs" "j < length xs" "i < j" "xs ! j < xs ! i"
    unfolding not_sorted_def list_ex_iff by auto
  then show "\<exists>i j. i < j \<and> j < length xs \<and> xs ! j < xs ! i" by blast
next
  assume "\<exists>i j. i < j \<and> j < length xs \<and> xs ! j < xs ! i"
  then obtain i j where ij: "i < j" "j < length xs" "xs ! j < xs ! i" by blast
  then have "i \<in> set [0..<length xs]" "j \<in> set [0..<length xs]" by simp_all
  with ij show "not_sorted xs"
    unfolding not_sorted_def list_ex_iff by blast
qed

lemma r_sort_loop_sound:
  "r_sort_loop fuel clone g = Return (res, g')
   \<Longrightarrow> mset res = mset clone \<and> \<not> not_sorted res"
proof (induction fuel arbitrary: clone g)
  case 0
  then show ?case by simp
next
  case (Suc n)
  obtain c' g1 where sh: "shuffle clone g = (c', g1)" by (cases "shuffle clone g")
  have m: "mset c' = mset clone" using shuffle_mset [OF sh] .
  show ?case
  proof (cases "not_sorted c'")
    case True
    then have "r_sort_loop n c' g1 = Return (res, g')"
      using Suc.prems sh by simp
    from Suc.IH [OF this] m show ?thesis by simp
  next
    case False
    then have "res = c'" using Suc.prems sh by simp
    with False m show ?thesis by simp
  qed
qed

text \<open>
  C6. Whenever \<open>r_sort(lst)\<close> returns, the result is a permutation of \<open>lst\<close> and is
  non-decreasing: \<open>result[i] \<le> result[j]\<close> for all \<open>i < j\<close>. It never returns anything
  that is not a permutation of its input.
\<close>

theorem r_sort_sorted_permutation:
  assumes "r_sort fuel lst g = Return (res, g')"
  shows "mset res = mset lst \<and> (\<forall>i j. i < j \<and> j < length res \<longrightarrow> res ! i \<le> res ! j)"
proof -
  from assms have "mset res = mset lst \<and> \<not> not_sorted res"
    unfolding r_sort_def by (rule r_sort_loop_sound)
  then show ?thesis
    unfolding not_sorted_iff by (metis linorder_not_less)
qed

theorem r_sort_sorted_permutation_witness:
  "r_sort 1 [3, 1, 2 :: nat] (sconst 0) = Return ([1, 2, 3], sconst 0)
   \<and> mset [1, 2, 3 :: nat] = mset [3, 1, 2]
   \<and> [1, 2, 3 :: nat] ! 0 \<le> [1, 2, 3] ! 1 \<and> [1, 2, 3 :: nat] ! 1 \<le> [1, 2, 3] ! 2"
proof -
  have run: "r_sort 1 [3, 1, 2 :: nat] (sconst 0) = Return ([1, 2, 3], sconst 0)"
    by (simp add: r_sort_def shuffle_def not_sorted_def Let_def numeral_2_eq_2 upt_rec)
  from r_sort_sorted_permutation [OF run] run show ?thesis by simp
qed

section \<open>Properties of the stream cipher\<close>

lemma encrypt_from_A:
  assumes "key \<noteq> []" "int c < int (key ! (i mod length key)) - 32"
  shows "encrypt_from i (c # cs) key =
          (case chr (int (key ! (i mod length key)) - int c) of
             Inl err \<Rightarrow> Inl err
           | Inr p \<Rightarrow> (case encrypt_from (i + 1) cs key of
                         Inl err \<Rightarrow> Inl err
                       | Inr rest \<Rightarrow> Inr (of_char CHR ''A'' # p # rest)))"
  using assms by (simp add: Let_def)

lemma encrypt_from_B:
  assumes "key \<noteq> []" "\<not> int c < int (key ! (i mod length key)) - 32"
    "int (key ! (i mod length key)) < int c - 32"
  shows "encrypt_from i (c # cs) key =
          (case chr (int c - int (key ! (i mod length key))) of
             Inl err \<Rightarrow> Inl err
           | Inr p \<Rightarrow> (case encrypt_from (i + 1) cs key of
                         Inl err \<Rightarrow> Inl err
                       | Inr rest \<Rightarrow> Inr (of_char CHR ''B'' # p # rest)))"
  using assms by (simp add: Let_def)

lemma encrypt_from_C:
  assumes "key \<noteq> []" "\<not> int c < int (key ! (i mod length key)) - 32"
    "\<not> int (key ! (i mod length key)) < int c - 32"
  shows "encrypt_from i (c # cs) key =
          (case encrypt_from (i + 1) cs key of
             Inl err \<Rightarrow> Inl err
           | Inr rest \<Rightarrow> Inr (of_char CHR ''C'' # c # rest))"
  using assms by (simp add: Let_def)

text \<open>
  On code points, with a non-empty key, \<open>s_encrypt\<close> never raises, and its output is
  twice as long as its input.
\<close>

lemma encrypt_from_total:
  assumes "key \<noteq> []" and "\<forall>e \<in> set key. e < 0x110000" and "\<forall>c \<in> set s. c < 0x110000"
  shows "\<exists>enc. encrypt_from i s key = Inr enc \<and> length enc = 2 * length s"
  using assms(3)
proof (induction s arbitrary: i)
  case Nil
  then show ?case by simp
next
  case (Cons c cs)
  let ?e = "key ! (i mod length key)"
  have "i mod length key < length key" using assms(1) by simp
  then have e: "?e < 0x110000" using assms(2) nth_mem by blast
  have c: "c < 0x110000" using Cons.prems by simp
  from Cons obtain rest where
    rest: "encrypt_from (i + 1) cs key = Inr rest" "length rest = 2 * length cs"
    by auto
  consider (A) "int c < int ?e - 32"
    | (B) "\<not> int c < int ?e - 32" "int ?e < int c - 32"
    | (C) "\<not> int c < int ?e - 32" "\<not> int ?e < int c - 32"
    by blast
  then show ?case
  proof cases
    case A
    then have "chr (int ?e - int c) = Inr (nat (int ?e - int c))"
      using e by (simp add: chr_def)
    with rest show ?thesis
      unfolding encrypt_from_A [OF assms(1) A] by simp
  next
    case B
    then have "chr (int c - int ?e) = Inr (nat (int c - int ?e))"
      using c by (simp add: chr_def)
    with rest show ?thesis
      unfolding encrypt_from_B [OF assms(1) B] by simp
  next
    case C
    with rest show ?thesis
      unfolding encrypt_from_C [OF assms(1) C] by simp
  qed
qed

lemma encrypt_from_Cons:
  assumes "encrypt_from i (c # cs) key = Inr enc"
  shows "key \<noteq> [] \<and> (\<exists>tag pay rest. enc = tag # pay # rest
           \<and> encrypt_from (i + 1) cs key = Inr rest
           \<and> c = decode_pair (key ! (i mod length key)) tag pay)"
proof -
  have key: "key \<noteq> []"
  proof
    assume "key = []"
    then have "encrypt_from i (c # cs) key = Inl ZeroDivisionError" by simp
    with assms show False by simp
  qed
  let ?e = "key ! (i mod length key)"
  consider (A) "int c < int ?e - 32"
    | (B) "\<not> int c < int ?e - 32" "int ?e < int c - 32"
    | (C) "\<not> int c < int ?e - 32" "\<not> int ?e < int c - 32"
    by blast
  then show ?thesis
  proof cases
    case A
    from assms [unfolded encrypt_from_A [OF key A]] obtain p rest where
      *: "chr (int ?e - int c) = Inr p" "encrypt_from (i + 1) cs key = Inr rest"
      "enc = of_char CHR ''A'' # p # rest"
      by (auto split: sum.splits)
    from *(1) have "int p = int ?e - int c"
      by (simp add: chr_def split: if_splits)
    then have "c = ?e - p" by linarith
    with * key show ?thesis by (simp add: decode_pair_def)
  next
    case B
    from assms [unfolded encrypt_from_B [OF key B]] obtain p rest where
      *: "chr (int c - int ?e) = Inr p" "encrypt_from (i + 1) cs key = Inr rest"
      "enc = of_char CHR ''B'' # p # rest"
      by (auto split: sum.splits)
    from *(1) have "int p = int c - int ?e"
      by (simp add: chr_def split: if_splits)
    then have "c = p + ?e" by linarith
    with * key show ?thesis by (simp add: decode_pair_def)
  next
    case C
    from assms [unfolded encrypt_from_C [OF key C]] obtain rest where
      "encrypt_from (i + 1) cs key = Inr rest" "enc = of_char CHR ''C'' # c # rest"
      by (auto split: sum.splits)
    then show ?thesis using key by (simp add: decode_pair_def)
  qed
qed

lemma encrypt_from_inj:
  "encrypt_from i s key = Inr enc \<Longrightarrow> encrypt_from i p key = Inr enc \<Longrightarrow> p = s"
proof (induction s arbitrary: i p enc)
  case Nil
  then have enc: "enc = []" by simp
  show ?case
  proof (cases p)
    case Nil
    then show ?thesis by simp
  next
    case (Cons c cs)
    from encrypt_from_Cons [OF Nil.prems(2) [unfolded Cons]]
    have "enc \<noteq> []" by blast
    with enc show ?thesis by simp
  qed
next
  case (Cons c cs)
  from encrypt_from_Cons [OF Cons.prems(1)] obtain tag pay rest where
    e1: "enc = tag # pay # rest" "encrypt_from (i + 1) cs key = Inr rest"
    "c = decode_pair (key ! (i mod length key)) tag pay"
    by blast
  show ?case
  proof (cases p)
    case Nil
    from Cons.prems(2) [unfolded Nil] have "enc = []" by simp
    with e1(1) show ?thesis by simp
  next
    case (Cons c' cs')
    from encrypt_from_Cons [OF Cons.prems(2) [unfolded Cons]] obtain tag' pay' rest' where
      e2: "enc = tag' # pay' # rest'" "encrypt_from (i + 1) cs' key = Inr rest'"
      "c' = decode_pair (key ! (i mod length key)) tag' pay'"
      by blast
    from e1(1) e2(1) have eq: "tag' = tag" "pay' = pay" "rest' = rest" by simp_all
    from Cons.IH [OF e1(2) e2(2) [unfolded eq]] have "cs' = cs" .
    with e1(3) e2(3) eq Cons show ?thesis by simp
  qed
qed

lemma s_decrypt_loop_sound:
  "s_decrypt_loop fuel enc key pt g = Return (p, g') \<Longrightarrow> s_encrypt p key = Inr enc"
proof (induction fuel arbitrary: pt g)
  case 0
  then show ?case
    by (auto split: sum.splits if_splits)
next
  case (Suc n)
  show ?case
  proof (cases "s_encrypt pt key = Inr enc")
    case True
    with Suc.prems show ?thesis by (auto split: sum.splits if_splits)
  next
    case False
    with Suc.prems obtain cand g1 where
      "s_decrypt_loop n enc key cand g1 = Return (p, g')"
      by (auto split: sum.splits if_splits prod.splits)
    then show ?thesis by (rule Suc.IH)
  qed
qed

text \<open>
  C3. For every plaintext \<open>s\<close> and key \<open>k\<close>: whenever
  \<open>s_decrypt(s_encrypt(s, k), k)\<close> returns, it returns exactly \<open>s\<close>.
\<close>

theorem s_decrypt_inverts_s_encrypt:
  assumes "s_encrypt s k = Inr enc" and "s_decrypt fuel enc k g = Return (p, g')"
  shows "p = s"
proof -
  from assms(2) have "s_encrypt p k = Inr enc"
    unfolding s_decrypt_def by (rule s_decrypt_loop_sound)
  with assms(1) show ?thesis
    unfolding s_encrypt_def by (rule encrypt_from_inj)
qed

theorem s_decrypt_inverts_s_encrypt_witness:
  "s_encrypt (str_of ''hi'') (str_of ''!wes!'') = Inr (str_of ''BGCi'')
   \<and> s_decrypt 1 (str_of ''BGCi'') (str_of ''!wes!'') (0 ## 2 ## sconst 0)
       = Return (str_of ''hi'', sconst 0)
   \<and> str_of ''hi'' = str_of ''hi''"
proof -
  have enc: "s_encrypt (str_of ''hi'') (str_of ''!wes!'') = Inr (str_of ''BGCi'')"
    by (simp add: s_encrypt_def str_of_def chr_def)
  have run: "s_decrypt 1 (str_of ''BGCi'') (str_of ''!wes!'') (0 ## 2 ## sconst 0)
       = Return (str_of ''hi'', sconst 0)"
    by (simp add: s_decrypt_def s_encrypt_def str_of_def chr_def possibilities_def choice_def)
  from s_decrypt_inverts_s_encrypt [OF enc run] enc run show ?thesis by simp
qed

lemma set_possibilities:
  "set (possibilities k c) =
     {nat n | n. (n = int k - int c \<or> n = int k + int c) \<and> 0 \<le> n \<and> n < 0x110000} \<union> {c}"
  by (auto simp: possibilities_def chr_def)

lemma decrypt_round_even:
  "even i \<Longrightarrow> decrypt_round i enc key g = Inr (cand, g')
   \<Longrightarrow> length cand = length enc div 2
       \<and> (\<forall>m < length cand.
             cand ! m \<in> set (possibilities (key ! ((i div 2 + m) mod length key))
                                            (enc ! (2 * m + 1))))"
proof (induction enc arbitrary: i cand g rule: induct_list012)
  case 1
  then show ?case by simp
next
  case (2 t)
  then show ?case by simp
next
  case (3 t c cs)
  have odd: "(i + 1) mod 2 \<noteq> 0" "i mod 2 = 0" using 3(3) by presburger+
  have step: "decrypt_round i (t # c # cs) key g = decrypt_round (i + 1) (c # cs) key g"
    using odd by simp
  have key: "key \<noteq> []"
  proof
    assume "key = []"
    then have "decrypt_round (i + 1) (c # cs) key g = Inl ZeroDivisionError"
      using odd by simp
    with 3(4) step show False by simp
  qed
  let ?k = "key ! ((i + 1) div 2 mod length key)"
  obtain x g1 where ch: "choice (possibilities ?k c) g = Inr (x, g1)"
    by (simp add: choice_def possibilities_def)
  have x: "x \<in> set (possibilities ?k c)"
    using ch by (auto simp: choice_def split: if_splits)
  have unfold: "decrypt_round (i + 1) (c # cs) key g =
      (case decrypt_round (i + 1 + 1) cs key g1 of
         Inl err \<Rightarrow> Inl err | Inr (rest, g'') \<Rightarrow> Inr (x # rest, g''))"
    using odd key ch by simp
  with 3(4) step obtain rest where
    rest: "decrypt_round (i + 2) cs key g1 = Inr (rest, g')" "cand = x # rest"
    by (auto split: sum.splits)
  have ev: "even (i + 2)" using 3(3) by simp
  from 3(1) [OF ev rest(1)] have IH: "length rest = length cs div 2"
    "\<forall>m < length rest.
       rest ! m \<in> set (possibilities (key ! (((i + 2) div 2 + m) mod length key))
                                      (cs ! (2 * m + 1)))"
    by simp_all
  have half: "(i + 1) div 2 = i div 2" "(i + 2) div 2 = i div 2 + 1"
    using 3(3) by presburger+
  have "length cand = length (t # c # cs) div 2" using rest(2) IH(1) by simp
  moreover have "cand ! m \<in> set (possibilities (key ! ((i div 2 + m) mod length key))
                                            ((t # c # cs) ! (2 * m + 1)))"
    if "m < length cand" for m
  proof (cases m)
    case 0
    with x half rest(2) show ?thesis by simp
  next
    case (Suc m')
    with that rest(2) have "m' < length rest" by simp
    with IH(2) half Suc rest(2) show ?thesis by simp
  qed
  ultimately show ?case by blast
qed

text \<open>
  C4 as stated fails: the bytes at odd indices are the payload and are not ignored
  (changing one changes the candidate), and the bytes at even indices are the tags
  (changing one changes nothing).
\<close>

theorem s_decrypt_odd_index_is_payload:
  "decrypt_round 0 (str_of ''C1'') (str_of ''!'') (sconst 1) = Inr (str_of ''1'', sconst 1)
   \<and> decrypt_round 0 (str_of ''C2'') (str_of ''!'') (sconst 1) = Inr (str_of ''2'', sconst 1)
   \<and> decrypt_round 0 (str_of ''B1'') (str_of ''!'') (sconst 1) = Inr (str_of ''1'', sconst 1)"
  by (simp add: str_of_def possibilities_def chr_def choice_def)

text \<open>
  C4, amended. In \<open>s_decrypt\<close> the even-indexed bytes carry the tag (which is ignored)
  and the odd-indexed bytes carry the payload: a candidate has one character for each
  odd index \<open>i = 2m + 1\<close>, taken from the representable members of
  \<open>{chr(k - c), chr(k + c), c}\<close> with \<open>c\<close> the byte at \<open>i\<close> and
  \<open>k = key[(i // 2) % len(key)]\<close>; and \<open>s_decrypt\<close> returns a candidate only if
  re-encrypting it reproduces the ciphertext.
\<close>

theorem s_decrypt_candidates:
  assumes "decrypt_round 0 enc key g = Inr (cand, g1)"
    and "s_decrypt fuel enc key g0 = Return (p, g2)"
  shows "length cand = length enc div 2
     \<and> (\<forall>m < length cand. \<exists>k c. k = key ! ((2 * m + 1) div 2 mod length key)
            \<and> c = enc ! (2 * m + 1)
            \<and> cand ! m \<in> {nat n | n. (n = int k - int c \<or> n = int k + int c)
                                      \<and> 0 \<le> n \<and> n < 0x110000} \<union> {c})
     \<and> s_encrypt p key = Inr enc"
proof -
  have "even (0::nat)" by simp
  from decrypt_round_even [OF this assms(1)]
  have len: "length cand = length enc div 2"
    and mem: "\<And>m. m < length cand \<Longrightarrow>
      cand ! m \<in> set (possibilities (key ! (m mod length key)) (enc ! (2 * m + 1)))"
    by simp_all
  have half: "(2 * m + 1) div 2 = m" for m :: nat by simp
  have enc: "s_encrypt p key = Inr enc"
    using assms(2) unfolding s_decrypt_def by (rule s_decrypt_loop_sound)
  from len mem enc show ?thesis
    unfolding half set_possibilities [symmetric] by simp
qed

theorem s_decrypt_candidates_witness:
  "decrypt_round 0 (str_of ''BGCi'') (str_of ''!wes!'') (0 ## 2 ## sconst 0)
     = Inr (str_of ''hi'', sconst 0)
   \<and> s_decrypt 1 (str_of ''BGCi'') (str_of ''!wes!'') (0 ## 2 ## sconst 0)
     = Return (str_of ''hi'', sconst 0)
   \<and> length (str_of ''hi'') = length (str_of ''BGCi'') div 2
   \<and> s_encrypt (str_of ''hi'') (str_of ''!wes!'') = Inr (str_of ''BGCi'')"
proof -
  have round: "decrypt_round 0 (str_of ''BGCi'') (str_of ''!wes!'') (0 ## 2 ## sconst 0)
     = Inr (str_of ''hi'', sconst 0)"
    by (simp add: str_of_def chr_def possibilities_def choice_def)
  have run: "s_decrypt 1 (str_of ''BGCi'') (str_of ''!wes!'') (0 ## 2 ## sconst 0)
       = Return (str_of ''hi'', sconst 0)"
    by (simp add: s_decrypt_def s_encrypt_def str_of_def chr_def possibilities_def choice_def)
  from s_decrypt_candidates [OF round run] round run show ?thesis by blast
qed

section \<open>Properties of matrix division\<close>

lemma rand_row_nonneg:
  "rand_row n maxv g = (r, g') \<Longrightarrow> \<forall>x \<in> set r. 0 \<le> x"
proof (induction n arbitrary: r g)
  case 0
  then show ?case by simp
next
  case (Suc n)
  then show ?case
    by (auto simp: randint_def split: prod.splits)
qed

lemma rand_matrix_nonneg:
  "rand_matrix n cols maxv g = (m, g') \<Longrightarrow> \<forall>r \<in> set m. \<forall>x \<in> set r. 0 \<le> x"
proof (induction n arbitrary: m g)
  case 0
  then show ?case by simp
next
  case (Suc n)
  obtain r g1 where r: "rand_row cols maxv g = (r, g1)"
    by (cases "rand_row cols maxv g")
  obtain rs g2 where rs: "rand_matrix n cols maxv g1 = (rs, g2)"
    by (cases "rand_matrix n cols maxv g1")
  from Suc.prems r rs have m: "m = r # rs" "g2 = g'" by simp_all
  from rand_row_nonneg [OF r] Suc.IH [OF rs [unfolded m(2)]] m(1)
  show ?case by simp
qed

lemma matdiv_for_sound:
  "matdiv_for n maxv dim c b g = (Some cand, g')
   \<Longrightarrow> matmul cand b = c \<and> (\<forall>r \<in> set cand. \<forall>x \<in> set r. 0 \<le> x)"
proof (induction n arbitrary: g)
  case 0
  then show ?case by simp
next
  case (Suc n)
  obtain m g1 where m: "rand_matrix (snd dim) (fst dim) maxv g = (m, g1)"
    by (cases "rand_matrix (snd dim) (fst dim) maxv g")
  show ?case
  proof (cases "matmul m b = c")
    case True
    with Suc.prems m have "cand = m" by simp
    with True rand_matrix_nonneg [OF m] show ?thesis by simp
  next
    case False
    with Suc.prems m have "matdiv_for n maxv dim c b g1 = (Some cand, g')" by simp
    then show ?thesis by (rule Suc.IH)
  qed
qed

lemma matdiv_while_sound:
  "matdiv_while fuel maxv dim c b g = Return (cand, g')
   \<Longrightarrow> matmul cand b = c \<and> (\<forall>r \<in> set cand. \<forall>x \<in> set r. 0 \<le> x)"
proof (induction fuel arbitrary: maxv g)
  case 0
  then show ?case by simp
next
  case (Suc fuel)
  let ?n = "(maxv + 1) ^ 2 * fst dim * snd dim + 10"
  obtain r g1 where r: "matdiv_for ?n (maxv + 1) dim c b g = (r, g1)"
    by (cases "matdiv_for ?n (maxv + 1) dim c b g")
  show ?case
  proof (cases r)
    case None
    with Suc.prems r have "matdiv_while fuel (maxv + 1) dim c b g1 = Return (cand, g')"
      by (simp add: Let_def)
    then show ?thesis by (rule Suc.IH)
  next
    case (Some m)
    with Suc.prems r have "m = cand" "g1 = g'" by (simp_all add: Let_def)
    with r Some show ?thesis using matdiv_for_sound by blast
  qed
qed

text \<open>
  C5. For integer matrices \<open>c\<close> and positive-integer matrices \<open>b\<close> such that some
  integer matrix \<open>a\<close> has \<open>matmul(a, b) == c\<close>: whenever \<open>matdiv(c, b)\<close> returns, the
  result has non-negative integer entries and \<open>matmul(result, b) == c\<close>.
\<close>

theorem matdiv_returns_solution:
  assumes "\<forall>r \<in> set b. \<forall>x \<in> set r. 0 < x" and "matmul a b = c"
    and "matdiv fuel c b g = Return (cand, g')"
  shows "matmul cand b = c \<and> (\<forall>r \<in> set cand. \<forall>x \<in> set r. 0 \<le> x)"
proof (cases b)
  case Nil
  with assms(3) show ?thesis by (simp add: matdiv_def)
next
  case (Cons b0 bs)
  with assms(3) have "matdiv_while fuel 0 (length b, length b0) c b g = Return (cand, g')"
    by (simp add: matdiv_def)
  then show ?thesis by (rule matdiv_while_sound)
qed

theorem matdiv_returns_solution_witness:
  "matdiv 1 [[1, 2], [4, 3]] [[1, 2], [3, 1]] (1 ## 0 ## 1 ## 1 ## sconst 0)
       = Return ([[1, 0], [1, 1]], sconst 0)
   \<and> matmul [[1, 0], [1, 1]] [[1, 2], [3, 1]] = [[1, 2], [4, 3]]
   \<and> list_all (list_all (\<lambda>x. 0 \<le> x)) [[1, 0], [1, 1 :: int]]"
proof -
  have pos: "\<forall>r \<in> set [[1, 2], [3, 1 :: int]]. \<forall>x \<in> set r. 0 < x" by simp
  have mul: "matmul [[1, 0], [1, 1]] [[1, 2], [3, 1]] = [[1, 2], [4, 3]]"
    by (simp add: matmul_def zip_star_def upt_rec numeral_2_eq_2)
  have run: "matdiv 1 [[1, 2], [4, 3]] [[1, 2], [3, 1]] (1 ## 0 ## 1 ## 1 ## sconst 0)
       = Return ([[1, 0], [1, 1]], sconst 0)"
    by (simp add: matdiv_def matmul_def zip_star_def upt_rec numeral_2_eq_2 randint_def
          eval_nat_numeral Let_def)
  from matdiv_returns_solution [OF pos mul run] run show ?thesis
    by (simp add: list_all_iff)
qed

section \<open>Properties of compression\<close>

text \<open>An invariant of the scan is kept by each of its three branches.\<close>

lemma compress_loop_invariant:
  assumes run: "compress_loop tokens m i st g = Inr (st', g')"
    and init: "P i st"
    and chunk: "\<And>i st h. P i st \<Longrightarrow> i < length tokens \<Longrightarrow> chunks st < 997
        \<Longrightarrow> int i < int (length tokens) - 5
        \<Longrightarrow> s_securehash (concat (take 5 (drop i tokens) @ take 5 (drop i tokens)
                                      @ take 5 (drop i tokens))) = Inr h
        \<Longrightarrow> P (i + 4 + 1)
              (st\<lparr>chunks := chunks st + 1,
                  l_chunks := l_chunks st @ [take 5 (drop i tokens)],
                  head := head st @ [concat (take 5 (drop i tokens)) @ str_of ''/''],
                  body := body st @ [ref (chunks st + 1)],
                  foot := foot st @ [h]\<rparr>)"
    and matrix: "\<And>i st l. P i st \<Longrightarrow> i < length tokens \<Longrightarrow> lst1 (tokens ! i) = Inr l
        \<Longrightarrow> P (i + 1)
              (st\<lparr>body := body st @ [str_of ''/'' @ repr_matrix (matmul l m) @ str_of ''/'']\<rparr>)"
    and literal: "\<And>i st. P i st \<Longrightarrow> i < length tokens
        \<Longrightarrow> P (i + 1) (st\<lparr>body := body st @ [tokens ! i]\<rparr>)"
  shows "\<exists>j. P j st'"
  using assms
proof (induction tokens m i st g rule: compress_loop.induct)
  case (1 tokens m i st g)
  note run = "1.prems"(1) [unfolded compress_loop.simps [of tokens m i st g]]
  note chunk = "1.prems"(3) and matrix = "1.prems"(4) and literal = "1.prems"(5)
  show ?case
  proof (cases "i < length tokens \<and> chunks st < 997")
    case False
    with run have "st' = st" by (auto split: if_splits)
    with "1.prems"(2) show ?thesis by blast
  next
    case True
    then have c1: "i < length tokens" and c2: "\<not> 997 \<le> chunks st" by simp_all
    obtain chunk_time g1 where
      r1: "(if int i < int (length tokens) - 5 then random_gt_08 g else (False, g))
            = (chunk_time, g1)"
      by (cases "if int i < int (length tokens) - 5 then random_gt_08 g else (False, g)")
    show ?thesis
    proof (cases chunk_time)
      case True
      then have five: "int i < int (length tokens) - 5"
        using r1 by (auto split: if_splits)
      let ?chunk = "take 5 (drop i tokens)"
      from run c1 c2 r1 True obtain h where
        h: "s_securehash (concat (?chunk @ ?chunk @ ?chunk)) = Inr h"
        by (cases "s_securehash (concat (?chunk @ ?chunk @ ?chunk))") (simp_all add: Let_def)
      let ?st = "st\<lparr>chunks := chunks st + 1,
                  l_chunks := l_chunks st @ [?chunk],
                  head := head st @ [concat ?chunk @ str_of ''/''],
                  body := body st @ [ref (chunks st + 1)],
                  foot := foot st @ [h]\<rparr>"
      from run c1 c2 r1 True h
      have rec: "compress_loop tokens m (i + 4 + 1) ?st g1 = Inr (st', g')"
        by (simp add: Let_def)
      have P: "P (i + 4 + 1) ?st"
        using chunk [OF "1.prems"(2) c1 _ five h] c2 by simp
      show ?thesis
        by (rule "1.IH"(1) [OF _ c2 r1 [symmetric] True refl refl h rec P chunk matrix literal]) (simp add: c1)
    next
      case False
      obtain matrix_time g2 where r2: "random_gt_08 g1 = (matrix_time, g2)"
        by (cases "random_gt_08 g1")
      show ?thesis
      proof (cases matrix_time)
        case True
        from run c1 c2 r1 \<open>\<not> chunk_time\<close> r2 True obtain l where
          l: "lst1 (tokens ! i) = Inr l"
          by (cases "lst1 (tokens ! i)") simp_all
        let ?st = "st\<lparr>body := body st
                     @ [str_of ''/'' @ repr_matrix (matmul l m) @ str_of ''/'']\<rparr>"
        from run c1 c2 r1 \<open>\<not> chunk_time\<close> r2 True l
        have rec: "compress_loop tokens m (i + 1) ?st g2 = Inr (st', g')" by simp
        have P: "P (i + 1) ?st" by (rule matrix [OF "1.prems"(2) c1 l])
        show ?thesis
          by (rule "1.IH"(2) [OF _ c2 r1 [symmetric] \<open>\<not> chunk_time\<close> r2 [symmetric] True l rec P chunk matrix literal])
             (simp add: c1)
      next
        case False
        let ?st = "st\<lparr>body := body st @ [tokens ! i]\<rparr>"
        from run c1 c2 r1 \<open>\<not> chunk_time\<close> r2 False
        have rec: "compress_loop tokens m (i + 1) ?st g2 = Inr (st', g')" by simp
        have P: "P (i + 1) ?st" by (rule literal [OF "1.prems"(2) c1])
        show ?thesis
          by (rule "1.IH"(3) [OF _ c2 r1 [symmetric] \<open>\<not> chunk_time\<close> r2 [symmetric] False rec P chunk matrix literal])
             (simp add: c1)
      qed
    qed
  qed
qed

lemma num_value_snoc: "num_value (xs @ [d]) = 10 * num_value xs + (d - 48)"
  by (simp add: num_value_def)

lemma num_value_str_nat: "num_value (str_nat n) = n"
proof (induction n rule: str_nat.induct)
  case (1 n)
  show ?case
  proof (cases "n < 10")
    case True
    then show ?thesis by (simp add: str_nat.simps [of n] num_value_def)
  next
    case False
    with 1 have "num_value (str_nat (n div 10)) = n div 10" by simp
    with False show ?thesis
      by (simp add: str_nat.simps [of n] num_value_snoc)
  qed
qed

lemma num_value_zeros: "num_value (replicate k 48 @ s) = num_value s"
proof -
  have "foldl (\<lambda>acc d. 10 * acc + (d - 48)) 0 (replicate k (48::nat)) = (0::nat)"
    by (induction k) simp_all
  then show ?thesis by (simp add: num_value_def)
qed

lemma ref_Cons: "ref n = 64 # replicate (3 - length (str_nat n)) 48 @ str_nat n"
  by (simp add: ref_def)

lemma num_value_ref: "ref n = 64 # r \<Longrightarrow> num_value r = n"
  by (auto simp: ref_Cons num_value_zeros num_value_str_nat)

lemma num_value_reserved: "r \<in> reserved \<Longrightarrow> num_value r \<in> {0, 998, 999}"
  by (auto simp: reserved_def str_of_def num_value_def)

lemma ref_not_reserved:
  assumes "1 \<le> n" "n \<le> 997" "ref n = 64 # r"
  shows "r \<notin> reserved"
proof
  assume "r \<in> reserved"
  then have "num_value r \<in> {0, 998, 999}" by (rule num_value_reserved)
  with num_value_ref [OF assms(3)] assms(1,2) show False by auto
qed

lemma escape_at: "escape c = 64 # r \<Longrightarrow> r \<in> reserved"
  by (auto simp: escape_def reserved_def str_of_def split: if_splits)

lemma renumber_fold:
  "foldl (\<lambda>p cv. if Q cv then ref (cv + 1) else p) part [0..<n] = part
   \<or> (\<exists>cv < n. foldl (\<lambda>p cv. if Q cv then ref (cv + 1) else p) part [0..<n] = ref (cv + 1))"
proof (induction n)
  case 0
  then show ?case by simp
next
  case (Suc n)
  show ?case
  proof (cases "Q n")
    case True
    then show ?thesis by auto
  next
    case False
    with Suc show ?thesis using less_Suc_eq by auto
  qed
qed

lemma renumber_result:
  assumes "renumber indices part = Inr q"
  shows "q = part \<or> (\<exists>cv < length indices. q = ref (cv + 1))"
proof (cases part)
  case Nil
  with assms show ?thesis by (simp add: renumber_def)
next
  case (Cons c cs)
  show ?thesis
  proof (cases "c = of_char CHR ''@''")
    case False
    with assms Cons show ?thesis by (simp add: renumber_def)
  next
    case True
    with assms Cons obtain rest where
      "q = foldl (\<lambda>p cv. if int (fst (indices ! cv)) = rest - 1 then ref (cv + 1) else p)
             part [0..<length indices]"
      by (auto simp: renumber_def split: sum.splits)
    with renumber_fold [of "\<lambda>cv. int (fst (indices ! cv)) = rest - 1" part "length indices"]
    show ?thesis by simp
  qed
qed

lemma renumber_all_result:
  "renumber_all indices parts = Inr qs
   \<Longrightarrow> \<forall>q \<in> set qs. q \<in> set parts \<or> (\<exists>cv < length indices. q = ref (cv + 1))"
proof (induction parts arbitrary: qs)
  case Nil
  then show ?case by simp
next
  case (Cons part parts)
  from Cons.prems obtain q qs' where
    q: "renumber indices part = Inr q" "renumber_all indices parts = Inr qs'" "qs = q # qs'"
    by (auto split: sum.splits)
  from renumber_result [OF q(1)] Cons.IH [OF q(2)] q(3) show ?case by auto
qed

lemma length_sorted_indices: "length (sorted_indices l) = length l"
  by (simp add: sorted_indices_def)

lemma compress_loop_dictionary:
  assumes run: "compress_loop tokens m 0 st0 g = Inr (st, g')"
    and st0: "chunks st0 = 0" "l_chunks st0 = []" "length (head st0) = 3" "body st0 = []"
      "foot st0 = []"
    and tokens: "\<forall>t \<in> set tokens. \<forall>r. t = 64 # r \<longrightarrow> r \<in> reserved"
  shows "chunks st \<le> 997 \<and> length (head st) = 3 + chunks st \<and> length (foot st) = chunks st
     \<and> length (l_chunks st) = chunks st
     \<and> (\<forall>p \<in> set (body st). \<forall>r. p = 64 # r
           \<longrightarrow> r \<in> reserved \<or> (\<exists>n. 1 \<le> n \<and> n \<le> chunks st \<and> p = ref n))"
proof -
  let ?P = "\<lambda>(i::nat) st. chunks st \<le> 997 \<and> length (head st) = 3 + chunks st
     \<and> length (foot st) = chunks st \<and> length (l_chunks st) = chunks st
     \<and> (\<forall>p \<in> set (body st). \<forall>r. p = 64 # r
           \<longrightarrow> r \<in> reserved \<or> (\<exists>n. 1 \<le> n \<and> n \<le> chunks st \<and> p = ref n))"
  have "\<exists>j. ?P j st"
  proof (rule compress_loop_invariant [where P = ?P, OF run])
    show "?P 0 st0" using st0 by simp
  next
    fix i st h
    assume P: "?P i st" and "chunks st < 997"
    then show "?P (i + 4 + 1)
              (st\<lparr>chunks := chunks st + 1,
                  l_chunks := l_chunks st @ [take 5 (drop i tokens)],
                  head := head st @ [concat (take 5 (drop i tokens)) @ str_of ''/''],
                  body := body st @ [ref (chunks st + 1)],
                  foot := foot st @ [h]\<rparr>)"
      by (auto intro: le_SucI)
  next
    fix i st l
    assume P: "?P i st"
    have "str_of ''/'' @ repr_matrix (matmul l m) @ str_of ''/'' \<noteq> 64 # r" for r
      by (simp add: str_of_def)
    with P show "?P (i + 1)
              (st\<lparr>body := body st @ [str_of ''/'' @ repr_matrix (matmul l m) @ str_of ''/'']\<rparr>)"
      by auto
  next
    fix i st
    assume P: "?P i st" and i: "i < length tokens"
    from tokens nth_mem [OF i] have "\<forall>r. tokens ! i = 64 # r \<longrightarrow> r \<in> reserved"
      by blast
    with P show "?P (i + 1) (st\<lparr>body := body st @ [tokens ! i]\<rparr>)"
      by auto
  qed
  then show ?thesis by simp
qed

text \<open>
  A run on \<open>000000\<close>: the key is \<open>!wes!\<close>, the matrix key is all ones, two chunks are
  cut at positions 0 and 5, and the last two tokens are copied.
\<close>

lemma compress_run_two_chunks:
  "s_compress_parts (str_of ''000000'') ([0, 0,0,0,0,0,0,0,0,0, 4, 4, 0, 0] @- sconst 0)
   = Inr ([str_of ''001'', str_of ''!wes!/'', str_of ''[[1, 1, 1], [1, 1, 1], [1, 1, 1]]/'',
           str_of ''C0AGA/'', str_of ''5ACC0/''],
          [str_of ''@002'', str_of ''@001'', str_of ''C'', str_of ''0''],
          [str_of ''426169a455d6a614364673995552140f'',
           str_of ''204673c8bb6314164261f8b677d6a60f''])"
  by (simp add: compress_eval)

lemma compress_loop_extraction_order:
  assumes run: "compress_loop tokens m 0 st0 g = Inr (st, g')"
    and st0: "length (head st0) = 3" "foot st0 = []" "l_chunks st0 = []"
  shows "\<exists>ps. sorted_wrt (<) ps
     \<and> drop 3 (head st) = map (\<lambda>p. concat (take 5 (drop p tokens)) @ str_of ''/'') ps
     \<and> map Inr (foot st)
         = map (\<lambda>p. s_securehash (concat (take 5 (drop p tokens) @ take 5 (drop p tokens)
                                             @ take 5 (drop p tokens)))) ps
     \<and> l_chunks st = map (\<lambda>p. take 5 (drop p tokens)) ps"
proof -
  let ?text = "\<lambda>p. concat (take 5 (drop p tokens)) @ str_of ''/''"
  let ?hash = "\<lambda>p. s_securehash (concat (take 5 (drop p tokens) @ take 5 (drop p tokens)
                                             @ take 5 (drop p tokens)))"
  let ?chunk = "\<lambda>p. take 5 (drop p tokens)"
  let ?P = "\<lambda>(i::nat) st. 3 \<le> length (head st) \<and> (\<exists>ps. sorted_wrt (<) ps \<and> (\<forall>p \<in> set ps. p < i)
     \<and> drop 3 (head st) = map ?text ps \<and> map Inr (foot st) = map ?hash ps
     \<and> l_chunks st = map ?chunk ps)"
  have "\<exists>j. ?P j st"
  proof (rule compress_loop_invariant [where P = ?P, OF run])
    show "?P 0 st0" using st0 by simp
  next
    fix i st h
    assume P: "?P i st" and h: "?hash i = Inr h"
    then obtain ps where ps: "sorted_wrt (<) ps" "\<forall>p \<in> set ps. p < i"
      "drop 3 (head st) = map ?text ps" "map Inr (foot st) = map ?hash ps"
      "l_chunks st = map ?chunk ps"
      and len: "3 \<le> length (head st)"
      by blast
    let ?ps = "ps @ [i]"
    have "sorted_wrt (<) ?ps" using ps(1,2) by (simp add: sorted_wrt_append)
    moreover have "\<forall>p \<in> set ?ps. p < i + 4 + 1" using ps(2) by auto
    moreover have "drop 3 (head st @ [?text i]) = map ?text ?ps"
      using ps(3) len by simp
    moreover have "map Inr (foot st @ [h]) = map ?hash ?ps"
      using ps(4) h by simp
    moreover have "l_chunks st @ [?chunk i] = map ?chunk ?ps"
      using ps(5) by simp
    ultimately have "\<exists>qs. sorted_wrt (<) qs \<and> (\<forall>p \<in> set qs. p < i + 4 + 1)
        \<and> drop 3 (head st @ [?text i]) = map ?text qs
        \<and> map Inr (foot st @ [h]) = map ?hash qs
        \<and> l_chunks st @ [?chunk i] = map ?chunk qs"
      by blast
    with len show "?P (i + 4 + 1)
              (st\<lparr>chunks := chunks st + 1,
                  l_chunks := l_chunks st @ [take 5 (drop i tokens)],
                  head := head st @ [concat (take 5 (drop i tokens)) @ str_of ''/''],
                  body := body st @ [ref (chunks st + 1)],
                  foot := foot st @ [h]\<rparr>)"
      by simp
  next
    fix i st l
    assume P: "?P i st"
    then obtain ps where ps: "sorted_wrt (<) ps" "\<forall>p \<in> set ps. p < i"
      "drop 3 (head st) = map ?text ps" "map Inr (foot st) = map ?hash ps"
      "l_chunks st = map ?chunk ps"
      and len: "3 \<le> length (head st)"
      by blast
    from ps(2) have "\<forall>p \<in> set ps. p < i + 1" by auto
    with ps(1,3,4,5) len
    show "?P (i + 1)
              (st\<lparr>body := body st @ [str_of ''/'' @ repr_matrix (matmul l m) @ str_of ''/'']\<rparr>)"
      by auto
  next
    fix i st
    assume P: "?P i st"
    then obtain ps where ps: "sorted_wrt (<) ps" "\<forall>p \<in> set ps. p < i"
      "drop 3 (head st) = map ?text ps" "map Inr (foot st) = map ?hash ps"
      "l_chunks st = map ?chunk ps"
      and len: "3 \<le> length (head st)"
      by blast
    from ps(2) have "\<forall>p \<in> set ps. p < i + 1" by auto
    with ps(1,3,4,5) len
    show "?P (i + 1) (st\<lparr>body := body st @ [tokens ! i]\<rparr>)"
      by auto
  qed
  then show ?thesis by blast
qed

section \<open>The renumbering of the body\<close>

lemma index_of_less: "x \<in> set xs \<Longrightarrow> index_of x xs < length xs"
  by (induction xs) auto

lemma nth_index_of: "x \<in> set xs \<Longrightarrow> xs ! index_of x xs = x"
  by (induction xs) auto

lemma index_of_unique:
  "distinct xs \<Longrightarrow> i < length xs \<Longrightarrow> xs ! i = x \<Longrightarrow> index_of x xs = i"
proof (induction xs arbitrary: i)
  case Nil
  then show ?case by simp
next
  case (Cons y ys)
  show ?case
  proof (cases i)
    case 0
    with Cons.prems show ?thesis by simp
  next
    case (Suc j)
    with Cons.prems have "j < length ys" "ys ! j = x" "x \<noteq> y"
      by (auto simp: nth_mem)
    with Cons Suc show ?thesis by simp
  qed
qed

lemma map_fst_enumerate: "map fst (enumerate n xs) = [n..<n + length xs]"
  by (simp add: enumerate_eq_zip)

lemma mset_fst_sorted_indices: "mset (map fst (sorted_indices l)) = mset [0..<length l]"
proof -
  have "mset (sorted_indices l) = mset (enumerate 0 l)"
    by (simp add: sorted_indices_def)
  then have "image_mset fst (mset (sorted_indices l)) = image_mset fst (mset (enumerate 0 l))"
    by simp
  then have "mset (map fst (sorted_indices l)) = mset (map fst (enumerate 0 l))"
    by (simp only: mset_map)
  then show ?thesis by (simp add: map_fst_enumerate)
qed

lemma distinct_fst_sorted_indices: "distinct (map fst (sorted_indices l))"
  using mset_fst_sorted_indices [of l] mset_eq_imp_distinct_iff [of "map fst (sorted_indices l)" "[0..<length l]"]
  by simp

lemma set_fst_sorted_indices: "set (map fst (sorted_indices l)) = {0..<length l}"
  using mset_fst_sorted_indices [of l] mset_eq_setD [of "map fst (sorted_indices l)" "[0..<length l]"]
  by simp

lemma sorted_indices_entry:
  assumes "i < length l"
  shows "(i, l ! i) \<in> set (sorted_indices l)"
proof -
  have "(i, l ! i) \<in> set (enumerate 0 l)"
    using assms by (simp add: in_set_enumerate_eq)
  then show ?thesis by (simp add: sorted_indices_def)
qed

lemma sorted_indices_snd:
  assumes "x \<in> set (sorted_indices l)"
  shows "fst x < length l \<and> snd x = l ! fst x"
proof -
  obtain i c where x: "x = (i, c)" by (cases x)
  from assms have "(i, c) \<in> set (enumerate 0 l)" by (simp add: sorted_indices_def x)
  then show ?thesis by (simp add: in_set_enumerate_eq x)
qed

lemma sorted_rank_props:
  assumes "1 \<le> k" "k \<le> length l"
  shows "1 \<le> sorted_rank l k" "sorted_rank l k \<le> length l"
    "sorted_indices l ! (sorted_rank l k - 1) = (k - 1, l ! (k - 1))"
proof -
  let ?fs = "map fst (sorted_indices l)"
  have mem: "k - 1 \<in> set ?fs" using assms set_fst_sorted_indices [of l] by auto
  have lt: "index_of (k - 1) ?fs < length ?fs" using mem by (rule index_of_less)
  show "1 \<le> sorted_rank l k" by (simp add: sorted_rank_def)
  show "sorted_rank l k \<le> length l"
    using lt by (simp add: sorted_rank_def length_sorted_indices)
  let ?x = "sorted_indices l ! index_of (k - 1) ?fs"
  have "fst ?x = k - 1"
    using nth_index_of [OF mem] lt by simp
  moreover have "?x \<in> set (sorted_indices l)" using lt by simp
  then have "snd ?x = l ! fst ?x" using sorted_indices_snd by blast
  ultimately have "?x = (k - 1, l ! (k - 1))" by (cases ?x) simp
  then show "sorted_indices l ! (sorted_rank l k - 1) = (k - 1, l ! (k - 1))"
    by (simp add: sorted_rank_def)
qed

lemma sorted_sorted_indices:
  "sorted (map (\<lambda>x. (snd x, fst x)) (sorted_indices l))"
  by (simp add: sorted_indices_def)

text \<open>
  The sorted rank of a chunk is one more than the number of chunks that come before it
  in the order of \<open>(chunk, index)\<close> pairs.
\<close>

lemma card_less_nth:
  fixes xs :: "'a::linorder list"
  assumes "sorted_wrt (<) xs" "i < length xs"
  shows "card {y \<in> set xs. y < xs ! i} = i"
proof -
  have d: "distinct xs" using assms(1) by (simp add: strict_sorted_iff)
  have "{y \<in> set xs. y < xs ! i} = set (take i xs)"
  proof (intro set_eqI iffI)
    fix y
    assume "y \<in> {y \<in> set xs. y < xs ! i}"
    then obtain j where j: "j < length xs" "y = xs ! j" "xs ! j < xs ! i"
      by (auto simp: in_set_conv_nth)
    have "j < i"
    proof (rule ccontr)
      assume "\<not> j < i"
      then have "i = j \<or> i < j" by auto
      then show False
      proof
        assume "i = j" with j(3) show False by simp
      next
        assume "i < j"
        from sorted_wrt_nth_less [OF assms(1) this j(1)] j(3) show False by simp
      qed
    qed
    then show "y \<in> set (take i xs)"
      using j(1,2) assms(2) by (auto simp: in_set_conv_nth)
  next
    fix y
    assume "y \<in> set (take i xs)"
    then obtain j where j: "j < i" "y = xs ! j"
      using assms(2) by (auto simp: in_set_conv_nth)
    from sorted_wrt_nth_less [OF assms(1) j(1) assms(2)] j(2) assms(2) j(1)
    show "y \<in> {y \<in> set xs. y < xs ! i}" by auto
  qed
  moreover have "card (set (take i xs)) = i"
    using distinct_card [OF distinct_take [OF d, of i]] assms(2) by simp
  ultimately show ?thesis by simp
qed

lemma sorted_rank_card:
  assumes "1 \<le> k" "k \<le> length l"
  shows "sorted_rank l k = 1 + card {j. j < length l \<and> (l ! j, j) < (l ! (k - 1), k - 1)}"
proof -
  let ?key = "\<lambda>x :: nat \<times> pystr list. (snd x, fst x)"
  let ?xs = "map ?key (sorted_indices l)"
  let ?i = "sorted_rank l k - 1"
  note props = sorted_rank_props [OF assms]
  have i: "?i < length ?xs" using props(1,2) by (simp add: length_sorted_indices)
  have inj: "inj ?key" by (auto simp: inj_on_def prod_eq_iff)
  have "distinct (sorted_indices l)"
    using distinct_fst_sorted_indices [of l] by (simp add: distinct_map)
  then have dist: "distinct ?xs"
    using inj_on_subset [OF inj subset_UNIV] by (simp add: distinct_map)
  with sorted_sorted_indices [of l] have strict: "sorted_wrt (<) ?xs"
    by (simp add: strict_sorted_iff)
  have nth: "?xs ! ?i = (l ! (k - 1), k - 1)"
    using i props(3) by simp
  have set: "set ?xs = (\<lambda>j. (l ! j, j)) ` {j. j < length l}"
  proof (intro set_eqI iffI)
    fix y assume "y \<in> set ?xs"
    then obtain x where x: "x \<in> set (sorted_indices l)" "y = ?key x" by auto
    from sorted_indices_snd [OF x(1)] x(2)
    show "y \<in> (\<lambda>j. (l ! j, j)) ` {j. j < length l}" by auto
  next
    fix y assume "y \<in> (\<lambda>j. (l ! j, j)) ` {j. j < length l}"
    then obtain j where j: "j < length l" "y = (l ! j, j)" by auto
    from sorted_indices_entry [OF j(1)] have "(l ! j, j) \<in> set ?xs"
      by (force simp: image_iff)
    with j(2) show "y \<in> set ?xs" by simp
  qed
  have "{y \<in> set ?xs. y < ?xs ! ?i}
        = (\<lambda>j. (l ! j, j)) ` {j. j < length l \<and> (l ! j, j) < (l ! (k - 1), k - 1)}"
    unfolding set nth by auto
  moreover have "inj_on (\<lambda>j. (l ! j, j)) {j. j < length l \<and> (l ! j, j) < (l ! (k - 1), k - 1)}"
    by (auto simp: inj_on_def)
  ultimately have c: "card {y \<in> set ?xs. y < ?xs ! ?i}
        = card {j. j < length l \<and> (l ! j, j) < (l ! (k - 1), k - 1)}"
    by (simp only: card_image)
  have "?i = card {j. j < length l \<and> (l ! j, j) < (l ! (k - 1), k - 1)}"
    using card_less_nth [OF strict i] c by (simp only:)
  with props(1) show ?thesis by linarith
qed

lemma digits_value_digits:
  "list_all is_digit s \<Longrightarrow> s \<noteq> [] \<or> b
   \<Longrightarrow> digits_value b acc s = Some (foldl (\<lambda>a d. 10 * a + (d - 48)) acc s)"
proof (induction s arbitrary: b acc)
  case Nil
  then show ?case by simp
next
  case (Cons c cs)
  then show ?case by simp
qed

lemma strip_digits:
  assumes "s \<noteq> []" "list_all is_digit s"
  shows "strip s = s"
proof -
  have nosp: "\<not> is_space d" if "is_digit d" for d
    using that by (auto simp: is_digit_def is_space_def)
  have drop: "dropWhile is_space t = t" if "t \<noteq> []" "\<not> is_space (hd t)" for t
    using that by (cases t) simp_all
  have "is_digit (hd s)" "is_digit (last s)"
    using assms by (auto simp: list_all_iff)
  then have "\<not> is_space (hd s)" "\<not> is_space (hd (rev s))"
    using nosp assms(1) by (simp_all add: hd_rev)
  then show ?thesis using assms(1) by (simp add: strip_def drop)
qed

lemma py_int_digits:
  assumes "s \<noteq> []" "list_all is_digit s"
  shows "py_int s = Inr (int (num_value s))"
proof -
  have "is_digit (hd s)" using assms by (auto simp: list_all_iff)
  then have "hd s \<noteq> of_char CHR ''-''" "hd s \<noteq> of_char CHR ''+''"
    by (auto simp: is_digit_def)
  then show ?thesis
    using assms by (simp add: py_int_def strip_digits digits_value_digits num_value_def)
qed

lemma str_nat_digits: "list_all is_digit (str_nat n) \<and> str_nat n \<noteq> []"
proof (induction n rule: str_nat.induct)
  case (1 n)
  show ?case
  proof (cases "n < 10")
    case True
    then show ?thesis by (simp add: str_nat.simps [of n] is_digit_def)
  next
    case False
    with 1 have "list_all is_digit (str_nat (n div 10))" by simp
    moreover have "is_digit (48 + n mod 10)" by (simp add: is_digit_def)
    ultimately show ?thesis using False by (simp add: str_nat.simps [of n])
  qed
qed

lemma py_int_ref: "ref k = c # r \<Longrightarrow> py_int r = Inr (int k)"
proof -
  assume "ref k = c # r"
  then have r: "r = replicate (3 - length (str_nat k)) 48 @ str_nat k"
    by (simp add: ref_Cons)
  have "list_all is_digit (replicate z 48)" for z
    by (induction z) (simp_all add: is_digit_def)
  then have "list_all is_digit r" "r \<noteq> []"
    using str_nat_digits [of k] by (simp_all add: r)
  then have "py_int r = Inr (int (num_value r))" by (simp add: py_int_digits)
  then show ?thesis by (simp add: r num_value_zeros num_value_str_nat)
qed

lemma py_int_reserved:
  "py_int (str_of ''000'') = Inr 0" "py_int (str_of ''998'') = Inr 998"
  "py_int (str_of ''999'') = Inr 999"
  by (simp_all add: py_int_def strip_def is_space_def is_digit_def str_of_def)

lemma foldl_unique_match:
  assumes "cv0 < n" "Q cv0" "\<forall>cv < n. Q cv \<longrightarrow> cv = cv0"
  shows "foldl (\<lambda>p cv. if Q cv then F cv else p) part [0..<n] = F cv0"
  using assms
proof (induction n)
  case 0
  then show ?case by simp
next
  case (Suc n)
  show ?case
  proof (cases "cv0 = n")
    case True
    with Suc.prems(2) show ?thesis by simp
  next
    case False
    have lt: "cv0 < n" using Suc.prems(1) False by simp
    have nq: "\<not> Q n"
    proof
      assume "Q n"
      with Suc.prems(3) have "n = cv0" by blast
      with False show False by simp
    qed
    have u: "\<forall>cv < n. Q cv \<longrightarrow> cv = cv0"
      using Suc.prems(3) less_SucI by blast
    from Suc.IH [OF lt Suc.prems(2) u] nq show ?thesis by simp
  qed
qed

lemma foldl_no_match:
  "\<forall>cv < n. \<not> Q cv \<Longrightarrow> foldl (\<lambda>p cv. if Q cv then F cv else p) part [0..<n] = part"
  by (induction n) simp_all

lemma renumber_ref:
  assumes "1 \<le> k" "k \<le> length l"
  shows "renumber (sorted_indices l) (ref k) = Inr (ref (sorted_rank l k))"
proof -
  let ?ix = "sorted_indices l"
  let ?fs = "map fst ?ix"
  let ?cv0 = "index_of (k - 1) ?fs"
  obtain r where r: "ref k = 64 # r" by (simp add: ref_Cons)
  have int: "py_int r = Inr (int k)" using r by (rule py_int_ref)
  have mem: "k - 1 \<in> set ?fs" using assms set_fst_sorted_indices [of l] by auto
  have lt: "?cv0 < length ?ix" using index_of_less [OF mem] by simp
  have at: "fst (?ix ! ?cv0) = k - 1" using nth_index_of [OF mem] lt by simp
  have Q: "int (fst (?ix ! cv)) = int k - 1 \<longleftrightarrow> fst (?ix ! cv) = k - 1" for cv
    using assms(1) by auto
  have uniq: "\<forall>cv < length ?ix. fst (?ix ! cv) = k - 1 \<longrightarrow> cv = ?cv0"
  proof (intro allI impI)
    fix cv
    assume "cv < length ?ix" "fst (?ix ! cv) = k - 1"
    then have "cv < length ?fs" "?fs ! cv = k - 1" by simp_all
    with index_of_unique [OF distinct_fst_sorted_indices] show "cv = ?cv0" by simp
  qed
  have fold: "foldl (\<lambda>p cv. if int (fst (?ix ! cv)) = int k - 1 then ref (cv + 1) else p)
          (ref k) [0..<length ?ix] = ref (?cv0 + 1)"
    unfolding Q by (rule foldl_unique_match [OF lt at uniq])
  have "renumber ?ix (64 # r)
        = Inr (foldl (\<lambda>p cv. if int (fst (?ix ! cv)) = int k - 1 then ref (cv + 1) else p)
                 (64 # r) [0..<length ?ix])"
    by (simp add: renumber_def int)
  then show ?thesis
    unfolding r [symmetric] fold by (simp add: sorted_rank_def)
qed

lemma renumber_token:
  assumes "is_token t" "length l \<le> 997"
  shows "renumber (sorted_indices l) t = Inr t"
proof -
  let ?ix = "sorted_indices l"
  have bound: "fst (?ix ! cv) < 997" if "cv < length ?ix" for cv
  proof -
    from that have "?ix ! cv \<in> set ?ix" by simp
    then have "fst (?ix ! cv) < length l" using sorted_indices_snd by blast
    with assms(2) show ?thesis by simp
  qed
  consider (esc) "t = str_of ''@000'' \<or> t = str_of ''@999'' \<or> t = str_of ''@998''"
    | (chr) "length t = 1" "hd t \<noteq> of_char CHR ''@''"
    using assms(1) by (auto simp: is_token_def)
  then show ?thesis
  proof cases
    case esc
    then obtain r v where t: "t = 64 # r" and v: "py_int r = Inr v" "v = 0 \<or> v = 998 \<or> v = 999"
    proof (elim disjE)
      assume "t = str_of ''@000''"
      then have "t = 64 # str_of ''000''" by (simp add: str_of_def)
      with py_int_reserved(1) that show thesis by blast
    next
      assume "t = str_of ''@999''"
      then have "t = 64 # str_of ''999''" by (simp add: str_of_def)
      with py_int_reserved(3) that show thesis by blast
    next
      assume "t = str_of ''@998''"
      then have "t = 64 # str_of ''998''" by (simp add: str_of_def)
      with py_int_reserved(2) that show thesis by blast
    qed
    have "\<forall>cv < length ?ix. \<not> int (fst (?ix ! cv)) = v - 1"
    proof (intro allI impI)
      fix cv
      assume "cv < length ?ix"
      then have "int (fst (?ix ! cv)) < 997" "0 \<le> int (fst (?ix ! cv))"
        using bound by simp_all
      with v(2) show "\<not> int (fst (?ix ! cv)) = v - 1" by auto
    qed
    then have fold: "foldl (\<lambda>p cv. if int (fst (?ix ! cv)) = v - 1 then ref (cv + 1) else p)
          (64 # r) [0..<length ?ix] = 64 # r"
      by (rule foldl_no_match)
    have "renumber ?ix (64 # r)
        = Inr (foldl (\<lambda>p cv. if int (fst (?ix ! cv)) = v - 1 then ref (cv + 1) else p)
                 (64 # r) [0..<length ?ix])"
      by (simp add: renumber_def v(1))
    then show ?thesis unfolding fold t .
  next
    case chr
    then obtain c where "t = [c]" "c \<noteq> 64"
      by (cases t) auto
    then show ?thesis by (simp add: renumber_def)
  qed
qed

lemma renumber_all_slots:
  assumes "\<forall>s \<in> set slots. wf_slot (length l) s" "length l \<le> 997"
  shows "renumber_all (sorted_indices l) (map (written m (\<lambda>k. k)) slots)
         = Inr (map (written m (sorted_rank l)) slots)"
  using assms(1)
proof (induction slots)
  case Nil
  then show ?case by simp
next
  case (Cons s slots)
  have "renumber (sorted_indices l) (written m (\<lambda>k. k) s) = Inr (written m (sorted_rank l) s)"
  proof (cases s)
    case (Chunk k)
    with Cons.prems show ?thesis by (simp add: renumber_ref)
  next
    case (Matrix t lm)
    then show ?thesis by (simp add: renumber_def str_of_def)
  next
    case (Literal t)
    with Cons.prems assms(2) show ?thesis by (simp add: renumber_token)
  qed
  with Cons show ?case by simp
qed

section \<open>The scan as a list of slots\<close>

lemma compress_loop_invariant_exit:
  assumes run: "compress_loop tokens m i st g = Inr (st', g')"
    and init: "P i st"
    and chunk: "\<And>i st h. P i st \<Longrightarrow> i < length tokens \<Longrightarrow> chunks st < 997
        \<Longrightarrow> int i < int (length tokens) - 5
        \<Longrightarrow> s_securehash (concat (take 5 (drop i tokens) @ take 5 (drop i tokens)
                                      @ take 5 (drop i tokens))) = Inr h
        \<Longrightarrow> P (i + 4 + 1)
              (st\<lparr>chunks := chunks st + 1,
                  l_chunks := l_chunks st @ [take 5 (drop i tokens)],
                  head := head st @ [concat (take 5 (drop i tokens)) @ str_of ''/''],
                  body := body st @ [ref (chunks st + 1)],
                  foot := foot st @ [h]\<rparr>)"
    and matrix: "\<And>i st l. P i st \<Longrightarrow> i < length tokens \<Longrightarrow> lst1 (tokens ! i) = Inr l
        \<Longrightarrow> P (i + 1)
              (st\<lparr>body := body st @ [str_of ''/'' @ repr_matrix (matmul l m) @ str_of ''/'']\<rparr>)"
    and literal: "\<And>i st. P i st \<Longrightarrow> i < length tokens
        \<Longrightarrow> P (i + 1) (st\<lparr>body := body st @ [tokens ! i]\<rparr>)"
  shows "\<exists>j. P j st' \<and> (\<not> j < length tokens \<or> 997 \<le> chunks st')"
  using assms
proof (induction tokens m i st g rule: compress_loop.induct)
  case (1 tokens m i st g)
  note run = "1.prems"(1) [unfolded compress_loop.simps [of tokens m i st g]]
  note chunk = "1.prems"(3) and matrix = "1.prems"(4) and literal = "1.prems"(5)
  show ?case
  proof (cases "i < length tokens \<and> chunks st < 997")
    case False
    with run have "st' = st" by (auto split: if_splits)
    with "1.prems"(2) False show ?thesis by auto
  next
    case True
    then have c1: "i < length tokens" and c2: "\<not> 997 \<le> chunks st" by simp_all
    obtain chunk_time g1 where
      r1: "(if int i < int (length tokens) - 5 then random_gt_08 g else (False, g))
            = (chunk_time, g1)"
      by (cases "if int i < int (length tokens) - 5 then random_gt_08 g else (False, g)")
    show ?thesis
    proof (cases chunk_time)
      case True
      then have five: "int i < int (length tokens) - 5"
        using r1 by (auto split: if_splits)
      let ?chunk = "take 5 (drop i tokens)"
      from run c1 c2 r1 True obtain h where
        h: "s_securehash (concat (?chunk @ ?chunk @ ?chunk)) = Inr h"
        by (cases "s_securehash (concat (?chunk @ ?chunk @ ?chunk))") (simp_all add: Let_def)
      let ?st = "st\<lparr>chunks := chunks st + 1,
                  l_chunks := l_chunks st @ [?chunk],
                  head := head st @ [concat ?chunk @ str_of ''/''],
                  body := body st @ [ref (chunks st + 1)],
                  foot := foot st @ [h]\<rparr>"
      from run c1 c2 r1 True h
      have rec: "compress_loop tokens m (i + 4 + 1) ?st g1 = Inr (st', g')"
        by (simp add: Let_def)
      have P: "P (i + 4 + 1) ?st"
        using chunk [OF "1.prems"(2) c1 _ five h] c2 by simp
      show ?thesis
        by (rule "1.IH"(1) [OF _ c2 r1 [symmetric] True refl refl h rec P chunk matrix literal]) (simp add: c1)
    next
      case False
      obtain matrix_time g2 where r2: "random_gt_08 g1 = (matrix_time, g2)"
        by (cases "random_gt_08 g1")
      show ?thesis
      proof (cases matrix_time)
        case True
        from run c1 c2 r1 \<open>\<not> chunk_time\<close> r2 True obtain l where
          l: "lst1 (tokens ! i) = Inr l"
          by (cases "lst1 (tokens ! i)") simp_all
        let ?st = "st\<lparr>body := body st
                     @ [str_of ''/'' @ repr_matrix (matmul l m) @ str_of ''/'']\<rparr>"
        from run c1 c2 r1 \<open>\<not> chunk_time\<close> r2 True l
        have rec: "compress_loop tokens m (i + 1) ?st g2 = Inr (st', g')" by simp
        have P: "P (i + 1) ?st" by (rule matrix [OF "1.prems"(2) c1 l])
        show ?thesis
          by (rule "1.IH"(2) [OF _ c2 r1 [symmetric] \<open>\<not> chunk_time\<close> r2 [symmetric] True l rec P chunk matrix literal])
             (simp add: c1)
      next
        case False
        let ?st = "st\<lparr>body := body st @ [tokens ! i]\<rparr>"
        from run c1 c2 r1 \<open>\<not> chunk_time\<close> r2 False
        have rec: "compress_loop tokens m (i + 1) ?st g2 = Inr (st', g')" by simp
        have P: "P (i + 1) ?st" by (rule literal [OF "1.prems"(2) c1])
        show ?thesis
          by (rule "1.IH"(3) [OF _ c2 r1 [symmetric] \<open>\<not> chunk_time\<close> r2 [symmetric] False rec P chunk matrix literal])
             (simp add: c1)
      qed
    qed
  qed
qed

lemma chunk_numbers_append:
  "chunk_numbers (xs @ ys) = chunk_numbers xs @ chunk_numbers ys"
  by (induction xs rule: chunk_numbers.induct) simp_all

lemma wf_slot_mono: "wf_slot n s \<Longrightarrow> wf_slot (Suc n) s"
  by (cases s) simp_all

lemma slot_tokens_append:
  "wf_slot (length l) s \<Longrightarrow> slot_tokens (l @ [c]) s = slot_tokens l s"
  by (cases s) (auto simp: nth_append)

lemma is_token_escape: "is_token (escape c)"
  by (simp add: is_token_def escape_def str_of_def)

lemma compress_loop_slots:
  assumes run: "compress_loop tokens m 0 st0 g = Inr (st, g')"
    and st0: "chunks st0 = 0" "l_chunks st0 = []" "body st0 = []" "head st0 = h0"
    and tokens: "\<forall>t \<in> set tokens. is_token t"
  shows "\<exists>slots j. body st = map (written m (\<lambda>k. k)) slots
      \<and> concat (map (slot_tokens (l_chunks st)) slots) = take j tokens
      \<and> chunk_numbers slots = [1..<chunks st + 1]
      \<and> (\<forall>s \<in> set slots. wf_slot (chunks st) s)
      \<and> length (l_chunks st) = chunks st \<and> chunks st \<le> 997
      \<and> head st = h0 @ map (\<lambda>c. concat c @ str_of ''/'') (l_chunks st)
      \<and> j \<le> length tokens \<and> (j = length tokens \<or> chunks st = 997)"
proof -
  let ?inv = "\<lambda>(i::nat) st slots. body st = map (written m (\<lambda>k. k)) slots
      \<and> concat (map (slot_tokens (l_chunks st)) slots) = take i tokens
      \<and> chunk_numbers slots = [1..<chunks st + 1]
      \<and> (\<forall>s \<in> set slots. wf_slot (chunks st) s)
      \<and> length (l_chunks st) = chunks st \<and> chunks st \<le> 997
      \<and> head st = h0 @ map (\<lambda>c. concat c @ str_of ''/'') (l_chunks st)
      \<and> i \<le> length tokens"
  let ?P = "\<lambda>i st. \<exists>slots. ?inv i st slots"
  have "\<exists>j. ?P j st \<and> (\<not> j < length tokens \<or> 997 \<le> chunks st)"
  proof (rule compress_loop_invariant_exit [where P = ?P, OF run])
    have "?inv 0 st0 []" using st0 by simp
    then show "?P 0 st0" by (rule exI [where P = "?inv 0 st0"])
  next
    fix i st h
    assume P: "?P i st" and lt: "chunks st < 997"
      and five: "int i < int (length tokens) - 5"
    from P obtain slots where inv: "?inv i st slots" ..
    from inv have i1: "body st = map (written m (\<lambda>k. k)) slots"
      and i2: "concat (map (slot_tokens (l_chunks st)) slots) = take i tokens"
      and i3: "chunk_numbers slots = [1..<chunks st + 1]"
      and i4: "\<forall>s \<in> set slots. wf_slot (chunks st) s"
      and i5: "length (l_chunks st) = chunks st"
      and i6: "chunks st \<le> 997"
      and i7: "head st = h0 @ map (\<lambda>c. concat c @ str_of ''/'') (l_chunks st)"
      by blast+
    let ?n = "chunks st"
    let ?c = "take 5 (drop i tokens)"
    let ?l = "l_chunks st @ [?c]"
    let ?st = "st\<lparr>chunks := chunks st + 1,
                  l_chunks := l_chunks st @ [take 5 (drop i tokens)],
                  head := head st @ [concat (take 5 (drop i tokens)) @ str_of ''/''],
                  body := body st @ [ref (chunks st + 1)],
                  foot := foot st @ [h]\<rparr>"
    let ?slots = "slots @ [Chunk (?n + 1)]"
    have wf: "\<forall>s \<in> set slots. wf_slot (length (l_chunks st)) s" using i4 i5 by simp
    have same: "map (slot_tokens ?l) slots = map (slot_tokens (l_chunks st)) slots"
      using wf by (simp add: slot_tokens_append)
    have new: "slot_tokens ?l (Chunk (?n + 1)) = ?c"
      using nth_append_length [of "l_chunks st" ?c "[]"] i5 by simp
    have plus: "i + 4 + 1 = i + 5" by simp
    have tk: "take (i + 4 + 1) tokens = take i tokens @ ?c"
      unfolding plus by (rule take_add)
    have a: "body ?st = map (written m (\<lambda>k. k)) ?slots" using i1 by simp
    have "concat (map (slot_tokens ?l) ?slots)
          = concat (map (slot_tokens ?l) slots) @ slot_tokens ?l (Chunk (?n + 1))"
      by simp
    also have "\<dots> = take i tokens @ ?c" unfolding same new i2 ..
    finally have b: "concat (map (slot_tokens (l_chunks ?st)) ?slots) = take (i + 4 + 1) tokens"
      using tk by simp
    have "[1..<?n + 1 + 1] = [1..<?n + 1] @ [?n + 1]" by simp
    then have c: "chunk_numbers ?slots = [1..<chunks ?st + 1]"
      using i3 by (simp add: chunk_numbers_append)
    have d: "\<forall>s \<in> set ?slots. wf_slot (chunks ?st) s"
      using i4 by (auto intro: wf_slot_mono)
    have e: "length (l_chunks ?st) = chunks ?st \<and> chunks ?st \<le> 997"
      using i5 lt by simp
    have f: "head ?st = h0 @ map (\<lambda>c. concat c @ str_of ''/'') (l_chunks ?st)"
      using i7 by simp
    have g: "i + 4 + 1 \<le> length tokens" using five by linarith
    from a b c d e f g have "?inv (i + 4 + 1) ?st ?slots" by blast
    then show "?P (i + 4 + 1) ?st" by (rule exI [where P = "?inv (i + 4 + 1) ?st"])
  next
    fix i st l
    assume P: "?P i st" and i: "i < length tokens" and l: "lst1 (tokens ! i) = Inr l"
    from P obtain slots where inv: "?inv i st slots" ..
    from inv have i1: "body st = map (written m (\<lambda>k. k)) slots"
      and i2: "concat (map (slot_tokens (l_chunks st)) slots) = take i tokens"
      and i3: "chunk_numbers slots = [1..<chunks st + 1]"
      and i4: "\<forall>s \<in> set slots. wf_slot (chunks st) s"
      and i5: "length (l_chunks st) = chunks st"
      and i6: "chunks st \<le> 997"
      and i7: "head st = h0 @ map (\<lambda>c. concat c @ str_of ''/'') (l_chunks st)"
      by blast+
    let ?st = "st\<lparr>body := body st
                  @ [str_of ''/'' @ repr_matrix (matmul l m) @ str_of ''/'']\<rparr>"
    let ?slots = "slots @ [Matrix (tokens ! i) l]"
    have tk: "take (i + 1) tokens = take i tokens @ [tokens ! i]"
      using i by (simp add: take_Suc_conv_app_nth)
    have a: "body ?st = map (written m (\<lambda>k. k)) ?slots" using i1 by simp
    have "concat (map (slot_tokens (l_chunks st)) ?slots) = take i tokens @ [tokens ! i]"
      using i2 by simp
    then have b: "concat (map (slot_tokens (l_chunks ?st)) ?slots) = take (i + 1) tokens"
      using tk by simp
    have c: "chunk_numbers ?slots = [1..<chunks ?st + 1]"
      using i3 by (simp add: chunk_numbers_append)
    have d: "\<forall>s \<in> set ?slots. wf_slot (chunks ?st) s"
      using i4 l by auto
    have e: "length (l_chunks ?st) = chunks ?st \<and> chunks ?st \<le> 997"
      using i5 i6 by simp
    have f: "head ?st = h0 @ map (\<lambda>c. concat c @ str_of ''/'') (l_chunks ?st)"
      using i7 by simp
    have g: "i + 1 \<le> length tokens" using i by simp
    from a b c d e f g have "?inv (i + 1) ?st ?slots" by blast
    then show "?P (i + 1) ?st" by (rule exI [where P = "?inv (i + 1) ?st"])
  next
    fix i st
    assume P: "?P i st" and i: "i < length tokens"
    from P obtain slots where inv: "?inv i st slots" ..
    from inv have i1: "body st = map (written m (\<lambda>k. k)) slots"
      and i2: "concat (map (slot_tokens (l_chunks st)) slots) = take i tokens"
      and i3: "chunk_numbers slots = [1..<chunks st + 1]"
      and i4: "\<forall>s \<in> set slots. wf_slot (chunks st) s"
      and i5: "length (l_chunks st) = chunks st"
      and i6: "chunks st \<le> 997"
      and i7: "head st = h0 @ map (\<lambda>c. concat c @ str_of ''/'') (l_chunks st)"
      by blast+
    let ?st = "st\<lparr>body := body st @ [tokens ! i]\<rparr>"
    let ?slots = "slots @ [Literal (tokens ! i)]"
    have tok: "is_token (tokens ! i)" using tokens i by simp
    have tk: "take (i + 1) tokens = take i tokens @ [tokens ! i]"
      using i by (simp add: take_Suc_conv_app_nth)
    have a: "body ?st = map (written m (\<lambda>k. k)) ?slots" using i1 by simp
    have "concat (map (slot_tokens (l_chunks st)) ?slots) = take i tokens @ [tokens ! i]"
      using i2 by simp
    then have b: "concat (map (slot_tokens (l_chunks ?st)) ?slots) = take (i + 1) tokens"
      using tk by simp
    have c: "chunk_numbers ?slots = [1..<chunks ?st + 1]"
      using i3 by (simp add: chunk_numbers_append)
    have d: "\<forall>s \<in> set ?slots. wf_slot (chunks ?st) s"
      using i4 tok by auto
    have e: "length (l_chunks ?st) = chunks ?st \<and> chunks ?st \<le> 997"
      using i5 i6 by simp
    have f: "head ?st = h0 @ map (\<lambda>c. concat c @ str_of ''/'') (l_chunks ?st)"
      using i7 by simp
    have g: "i + 1 \<le> length tokens" using i by simp
    from a b c d e f g have "?inv (i + 1) ?st ?slots" by blast
    then show "?P (i + 1) ?st" by (rule exI [where P = "?inv (i + 1) ?st"])
  qed
  then obtain j slots where inv: "?inv j st slots"
    and exit: "\<not> j < length tokens \<or> 997 \<le> chunks st"
    by blast
  from inv exit have "j = length tokens \<or> chunks st = 997" by auto
  with inv show ?thesis by blast
qed

section \<open>The artifact that compression returns\<close>

text \<open>
  What a successful call of \<open>s_compress\<close> has done: the chunks were cut at the
  positions \<open>ps\<close>, the body is what was written for the slots of the scan, with the
  chunks numbered by sorted rank, and the slots cover the tokens scanned.
\<close>

lemma s_compress_parts_scan:
  assumes "s_compress_parts plaintext g = Inr (h, b, f)"
  shows "\<exists>key enc m ps slots j. s_encrypt plaintext key = Inr enc
     \<and> take 3 h = [str_of ''001'', key @ str_of ''/'', repr_matrix m @ str_of ''/'']
     \<and> sorted_wrt (<) ps
     \<and> drop 3 h = map (\<lambda>p. concat (take 5 (drop p (map escape enc))) @ str_of ''/'') ps
     \<and> map Inr f
         = map (\<lambda>p. s_securehash (concat (take 5 (drop p (map escape enc))
                                             @ take 5 (drop p (map escape enc))
                                             @ take 5 (drop p (map escape enc))))) ps
     \<and> length ps \<le> 997
     \<and> b = map (written m (sorted_rank (map (\<lambda>p. take 5 (drop p (map escape enc))) ps))) slots
     \<and> concat (map (slot_tokens (map (\<lambda>p. take 5 (drop p (map escape enc))) ps)) slots)
         = take j (map escape enc)
     \<and> chunk_numbers slots = [1..<length ps + 1]
     \<and> (\<forall>s \<in> set slots. wf_slot (length ps) s)
     \<and> (j = length (map escape enc) \<or> length ps = 997)"
proof -
  from assms obtain key g1 enc m g2 st g3 where
    enc: "s_encrypt plaintext key = Inr enc"
    and loop: "compress_loop (map escape enc) m 0
             \<lparr>chunks = 0, l_chunks = [],
              head = [str_of ''001'', key @ str_of ''/'', repr_matrix m @ str_of ''/''],
              body = [], foot = []\<rparr> g2 = Inr (st, g3)"
    and ren: "renumber_all (sorted_indices (l_chunks st)) (body st) = Inr b"
    and hf: "h = head st" "f = foot st"
    by (auto simp: s_compress_parts_def split: sum.splits prod.splits)
  let ?tokens = "map escape enc"
  let ?chunk = "\<lambda>p. take 5 (drop p ?tokens)"
  from compress_loop_extraction_order [OF loop] obtain ps where
    ps: "sorted_wrt (<) ps"
    "drop 3 (head st) = map (\<lambda>p. concat (take 5 (drop p ?tokens)) @ str_of ''/'') ps"
    "map Inr (foot st)
       = map (\<lambda>p. s_securehash (concat (take 5 (drop p ?tokens) @ take 5 (drop p ?tokens)
                                           @ take 5 (drop p ?tokens)))) ps"
    "l_chunks st = map ?chunk ps"
    by auto
  have tokens: "\<forall>t \<in> set ?tokens. is_token t"
    using is_token_escape by auto
  from compress_loop_slots [OF loop _ _ _ _ tokens] obtain slots j where
    sl: "body st = map (written m (\<lambda>k. k)) slots"
    "concat (map (slot_tokens (l_chunks st)) slots) = take j ?tokens"
    "chunk_numbers slots = [1..<chunks st + 1]"
    "\<forall>s \<in> set slots. wf_slot (chunks st) s"
    "length (l_chunks st) = chunks st" "chunks st \<le> 997"
    "j = length ?tokens \<or> chunks st = 997"
    "head st = [str_of ''001'', key @ str_of ''/'', repr_matrix m @ str_of ''/'']
         @ map (\<lambda>c. concat c @ str_of ''/'') (l_chunks st)"
    by auto
  have h3: "take 3 h = [str_of ''001'', key @ str_of ''/'', repr_matrix m @ str_of ''/'']"
    unfolding hf sl(8) by simp
  have n: "chunks st = length ps" using sl(5) ps(4) by simp
  have wf: "\<forall>s \<in> set slots. wf_slot (length (l_chunks st)) s" using sl(4,5) by simp
  have "length (l_chunks st) \<le> 997" using sl(5,6) by simp
  from renumber_all_slots [OF wf this, of m] ren sl(1)
  have b: "b = map (written m (sorted_rank (l_chunks st))) slots" by simp
  from enc h3 ps(1) ps(2) [folded hf] ps(3) [folded hf] sl(6) [unfolded n] b [unfolded ps(4)]
    sl(2) [unfolded ps(4)] sl(3) [unfolded n] sl(4) [unfolded n] sl(7) [unfolded n]
  show ?thesis by blast
qed

text \<open>
  C7. Whenever \<open>s_compress\<close> produces an artifact, it has at most 997 dictionary
  chunks, and HEAD and FOOT have the same number of entries. Every BODY part \<open>@NNN\<close>
  whose \<open>NNN\<close> is not a reserved escape code is a reference \<open>ref n\<close> with
  \<open>1 \<le> n \<le>\<close> the number of HEAD dictionary entries. The body is what was written
  for the slots of the scan: every chunk is referenced once, the part written for the
  k-th chunk is \<open>ref\<close> of its rank, that rank lies between 1 and the number of HEAD
  entries and is never one of the reserved codes 000, 998 and 999, and the parts that
  are not references are copied tokens and matrix literals.
\<close>

theorem s_compress_dictionary_consistent:
  assumes "s_compress_parts plaintext g = Inr (h, b, f)"
  shows "length (drop 3 h) \<le> 997 \<and> length f = length (drop 3 h)
     \<and> (\<forall>p \<in> set b. \<forall>r. p = 64 # r \<and> r \<notin> reserved
           \<longrightarrow> (\<exists>n. 1 \<le> n \<and> n \<le> length (drop 3 h) \<and> p = ref n))
     \<and> (\<exists>key enc m l slots j. s_encrypt plaintext key = Inr enc
           \<and> take 3 h = [str_of ''001'', key @ str_of ''/'', repr_matrix m @ str_of ''/'']
           \<and> drop 3 h = map (\<lambda>c. concat c @ str_of ''/'') l
           \<and> b = map (written m (sorted_rank l)) slots
           \<and> concat (map (slot_tokens l) slots) = take j (map escape enc)
           \<and> (j = length (map escape enc) \<or> length l = 997)
           \<and> chunk_numbers slots = [1..<length l + 1]
           \<and> (\<forall>s \<in> set slots. wf_slot (length l) s)
           \<and> (\<forall>k. 1 \<le> k \<and> k \<le> length l
                 \<longrightarrow> 1 \<le> sorted_rank l k \<and> sorted_rank l k \<le> length (drop 3 h)
                     \<and> (\<forall>r. ref (sorted_rank l k) = 64 # r \<longrightarrow> r \<notin> reserved)))"
proof -
  from assms obtain key g1 enc m g2 st g3 where
    loop: "compress_loop (map escape enc) m 0
             \<lparr>chunks = 0, l_chunks = [],
              head = [str_of ''001'', key @ str_of ''/'', repr_matrix m @ str_of ''/''],
              body = [], foot = []\<rparr> g2 = Inr (st, g3)"
    and ren: "renumber_all (sorted_indices (l_chunks st)) (body st) = Inr b"
    and hf: "h = head st" "f = foot st"
    by (auto simp: s_compress_parts_def split: sum.splits prod.splits)
  have tokens: "\<forall>t \<in> set (map escape enc). \<forall>r. t = 64 # r \<longrightarrow> r \<in> reserved"
    using escape_at by auto
  from compress_loop_dictionary [OF loop _ _ _ _ _ tokens]
  have inv: "chunks st \<le> 997" "length (head st) = 3 + chunks st"
    "length (foot st) = chunks st" "length (l_chunks st) = chunks st"
    "\<forall>p \<in> set (body st). \<forall>r. p = 64 # r
           \<longrightarrow> r \<in> reserved \<or> (\<exists>n. 1 \<le> n \<and> n \<le> chunks st \<and> p = ref n)"
    by simp_all
  have n: "length (drop 3 h) = chunks st" using inv(2) hf by simp
  have refs: "\<exists>n. 1 \<le> n \<and> n \<le> chunks st \<and> p = ref n"
    if "p \<in> set b" "p = 64 # r" "r \<notin> reserved" for p r
  proof -
    from renumber_all_result [OF ren] that(1)
    consider "p \<in> set (body st)" | cv where "cv < length (sorted_indices (l_chunks st))"
      "p = ref (cv + 1)"
      by blast
    then show ?thesis
    proof cases
      case 1
      with inv(5) that(2,3) show ?thesis by blast
    next
      case 2
      then have "cv + 1 \<le> chunks st" by (simp add: length_sorted_indices inv(4))
      with 2(2) show ?thesis by (intro exI [of _ "cv + 1"]) simp
    qed
  qed
  have part3: "\<forall>p \<in> set b. \<forall>r. p = 64 # r \<and> r \<notin> reserved
           \<longrightarrow> (\<exists>n. 1 \<le> n \<and> n \<le> length (drop 3 h) \<and> p = ref n)"
    using refs n by auto
  from s_compress_parts_scan [OF assms] obtain key' enc' m' ps slots j where
    sc: "s_encrypt plaintext key' = Inr enc'"
    and h3: "take 3 h = [str_of ''001'', key' @ str_of ''/'', repr_matrix m' @ str_of ''/'']"
    and sc2:
    "drop 3 h = map (\<lambda>p. concat (take 5 (drop p (map escape enc'))) @ str_of ''/'') ps"
    "length ps \<le> 997"
    "b = map (written m' (sorted_rank (map (\<lambda>p. take 5 (drop p (map escape enc'))) ps))) slots"
    "concat (map (slot_tokens (map (\<lambda>p. take 5 (drop p (map escape enc'))) ps)) slots)
         = take j (map escape enc')"
    "chunk_numbers slots = [1..<length ps + 1]"
    "\<forall>s \<in> set slots. wf_slot (length ps) s"
    "j = length (map escape enc') \<or> length ps = 997"
    by blast
  let ?l = "map (\<lambda>p. take 5 (drop p (map escape enc'))) ps"
  have len: "length ?l = length ps" by simp
  have hl: "drop 3 h = map (\<lambda>c. concat c @ str_of ''/'') ?l"
    using sc2(1) by (simp add: comp_def)
  have nl: "length (drop 3 h) = length ?l" using hl by (metis length_map)
  have ranks: "\<forall>k. 1 \<le> k \<and> k \<le> length ?l
                 \<longrightarrow> 1 \<le> sorted_rank ?l k \<and> sorted_rank ?l k \<le> length (drop 3 h)
                     \<and> (\<forall>r. ref (sorted_rank ?l k) = 64 # r \<longrightarrow> r \<notin> reserved)"
  proof (intro allI impI)
    fix k
    assume k: "1 \<le> k \<and> k \<le> length ?l"
    then have r1: "1 \<le> sorted_rank ?l k" and r2: "sorted_rank ?l k \<le> length ?l"
      using sorted_rank_props(1,2) [of k ?l] by blast+
    from r2 sc2(2) have r3: "sorted_rank ?l k \<le> 997" by simp
    have "\<forall>r. ref (sorted_rank ?l k) = 64 # r \<longrightarrow> r \<notin> reserved"
      using ref_not_reserved [OF r1 r3] by blast
    with r1 r2 nl show "1 \<le> sorted_rank ?l k \<and> sorted_rank ?l k \<le> length (drop 3 h)
                     \<and> (\<forall>r. ref (sorted_rank ?l k) = 64 # r \<longrightarrow> r \<notin> reserved)"
      by simp
  qed
  have part4: "\<exists>key enc m l slots j. s_encrypt plaintext key = Inr enc
           \<and> take 3 h = [str_of ''001'', key @ str_of ''/'', repr_matrix m @ str_of ''/'']
           \<and> drop 3 h = map (\<lambda>c. concat c @ str_of ''/'') l
           \<and> b = map (written m (sorted_rank l)) slots
           \<and> concat (map (slot_tokens l) slots) = take j (map escape enc)
           \<and> (j = length (map escape enc) \<or> length l = 997)
           \<and> chunk_numbers slots = [1..<length l + 1]
           \<and> (\<forall>s \<in> set slots. wf_slot (length l) s)
           \<and> (\<forall>k. 1 \<le> k \<and> k \<le> length l
                 \<longrightarrow> 1 \<le> sorted_rank l k \<and> sorted_rank l k \<le> length (drop 3 h)
                     \<and> (\<forall>r. ref (sorted_rank l k) = 64 # r \<longrightarrow> r \<notin> reserved))"
    using sc h3 hl sc2(3) sc2(4) sc2(7) [folded len] sc2(5) [folded len] sc2(6) [folded len] ranks
    by blast
  from n inv(1,3) hf have "length (drop 3 h) \<le> 997" "length f = length (drop 3 h)"
    by simp_all
  with part3 part4 show ?thesis by blast
qed

theorem s_compress_dictionary_consistent_witness:
  "s_compress_parts (str_of ''000000'') ([0, 0,0,0,0,0,0,0,0,0, 4, 4, 0, 0] @- sconst 0)
   = Inr ([str_of ''001'', str_of ''!wes!/'', str_of ''[[1, 1, 1], [1, 1, 1], [1, 1, 1]]/'',
           str_of ''C0AGA/'', str_of ''5ACC0/''],
          [str_of ''@002'', str_of ''@001'', str_of ''C'', str_of ''0''],
          [str_of ''426169a455d6a614364673995552140f'',
           str_of ''204673c8bb6314164261f8b677d6a60f''])
   \<and> length [str_of ''C0AGA/'', str_of ''5ACC0/''] \<le> 997
   \<and> length [str_of ''426169a455d6a614364673995552140f'',
               str_of ''204673c8bb6314164261f8b677d6a60f'']
       = length [str_of ''C0AGA/'', str_of ''5ACC0/'']
   \<and> (\<exists>key enc m l slots j. s_encrypt (str_of ''000000'') key = Inr enc
           \<and> [str_of ''001'', str_of ''!wes!/'', str_of ''[[1, 1, 1], [1, 1, 1], [1, 1, 1]]/'']
               = [str_of ''001'', key @ str_of ''/'', repr_matrix m @ str_of ''/'']
           \<and> [str_of ''C0AGA/'', str_of ''5ACC0/''] = map (\<lambda>c. concat c @ str_of ''/'') l
           \<and> [str_of ''@002'', str_of ''@001'', str_of ''C'', str_of ''0'']
               = map (written m (sorted_rank l)) slots
           \<and> concat (map (slot_tokens l) slots) = take j (map escape enc)
           \<and> chunk_numbers slots = [1..<length l + 1])"
proof -
  note run = compress_run_two_chunks
  have d: "drop 3 [str_of ''001'', str_of ''!wes!/'',
                   str_of ''[[1, 1, 1], [1, 1, 1], [1, 1, 1]]/'',
                   str_of ''C0AGA/'', str_of ''5ACC0/'']
           = [str_of ''C0AGA/'', str_of ''5ACC0/'']"
    "take 3 [str_of ''001'', str_of ''!wes!/'',
                   str_of ''[[1, 1, 1], [1, 1, 1], [1, 1, 1]]/'',
                   str_of ''C0AGA/'', str_of ''5ACC0/'']
           = [str_of ''001'', str_of ''!wes!/'', str_of ''[[1, 1, 1], [1, 1, 1], [1, 1, 1]]/'']"
    by simp_all
  note inst = s_compress_dictionary_consistent [OF run, unfolded d]
  from inst have a: "length [str_of ''C0AGA/'', str_of ''5ACC0/''] \<le> 997"
    and b: "length [str_of ''426169a455d6a614364673995552140f'',
                 str_of ''204673c8bb6314164261f8b677d6a60f'']
         = length [str_of ''C0AGA/'', str_of ''5ACC0/'']"
    by blast+
  from inst have "\<exists>key enc m l slots j. s_encrypt (str_of ''000000'') key = Inr enc
           \<and> [str_of ''001'', str_of ''!wes!/'', str_of ''[[1, 1, 1], [1, 1, 1], [1, 1, 1]]/'']
               = [str_of ''001'', key @ str_of ''/'', repr_matrix m @ str_of ''/'']
           \<and> [str_of ''C0AGA/'', str_of ''5ACC0/''] = map (\<lambda>c. concat c @ str_of ''/'') l
           \<and> [str_of ''@002'', str_of ''@001'', str_of ''C'', str_of ''0'']
               = map (written m (sorted_rank l)) slots
           \<and> concat (map (slot_tokens l) slots) = take j (map escape enc)
           \<and> chunk_numbers slots = [1..<length l + 1]"
    by (elim exE conjE) (intro exI conjI; assumption)
  with run a b show ?thesis by (intro conjI)
qed

text \<open>
  C2 as stated fails: in this run HEAD lists \<open>C0AGA\<close> before \<open>5ACC0\<close>, the order in
  which the chunks were cut, and that is not the sorted order.
\<close>

theorem s_compress_head_not_sorted:
  "s_compress_parts (str_of ''000000'') ([0, 0,0,0,0,0,0,0,0,0, 4, 4, 0, 0] @- sconst 0)
   = Inr ([str_of ''001'', str_of ''!wes!/'', str_of ''[[1, 1, 1], [1, 1, 1], [1, 1, 1]]/'',
           str_of ''C0AGA/'', str_of ''5ACC0/''],
          [str_of ''@002'', str_of ''@001'', str_of ''C'', str_of ''0''],
          [str_of ''426169a455d6a614364673995552140f'',
           str_of ''204673c8bb6314164261f8b677d6a60f''])
   \<and> \<not> sorted (drop 3 [str_of ''001'', str_of ''!wes!/'',
                         str_of ''[[1, 1, 1], [1, 1, 1], [1, 1, 1]]/'',
                         str_of ''C0AGA/'', str_of ''5ACC0/''])"
  using compress_run_two_chunks by (simp add: str_of_def)

text \<open>
  C2, amended. The artifact produced by \<open>s_compress\<close> lists its dictionary chunk texts
  in HEAD in extraction order, the order in which the chunks were cut from the token
  stream from left to right (positions \<open>ps\<close>, increasing), and FOOT's checksums appear
  in that same order: the k-th checksum is the hash of the k-th chunk, tripled. Only
  the BODY references are renumbered to the sorted rank: the body is what was written
  for the slots of the scan, which cover the tokens scanned and mention the chunks
  1, 2, ... in this order, and the part written for the k-th chunk cut is \<open>ref\<close> of
  its sorted rank, one more than the number of chunks before it in the order of
  \<open>(chunk, index)\<close> pairs.
\<close>

theorem s_compress_head_extraction_order:
  assumes "s_compress_parts plaintext g = Inr (h, b, f)"
  shows "\<exists>key enc m ps l slots j. s_encrypt plaintext key = Inr enc \<and> sorted_wrt (<) ps
     \<and> take 3 h = [str_of ''001'', key @ str_of ''/'', repr_matrix m @ str_of ''/'']
     \<and> drop 3 h = map (\<lambda>p. concat (take 5 (drop p (map escape enc))) @ str_of ''/'') ps
     \<and> map Inr f
         = map (\<lambda>p. s_securehash (concat (take 5 (drop p (map escape enc))
                                             @ take 5 (drop p (map escape enc))
                                             @ take 5 (drop p (map escape enc))))) ps
     \<and> l = map (\<lambda>p. take 5 (drop p (map escape enc))) ps
     \<and> b = map (written m (sorted_rank l)) slots
     \<and> concat (map (slot_tokens l) slots) = take j (map escape enc)
     \<and> (j = length (map escape enc) \<or> length l = 997)
     \<and> chunk_numbers slots = [1..<length l + 1]
     \<and> (\<forall>s \<in> set slots. wf_slot (length l) s)
     \<and> (\<forall>k. 1 \<le> k \<and> k \<le> length l
           \<longrightarrow> sorted_rank l k
               = 1 + card {i. i < length l \<and> (l ! i, i) < (l ! (k - 1), k - 1)})"
proof -
  from s_compress_parts_scan [OF assms] obtain key enc m ps slots j where
    sc: "s_encrypt plaintext key = Inr enc"
    "take 3 h = [str_of ''001'', key @ str_of ''/'', repr_matrix m @ str_of ''/'']"
    "sorted_wrt (<) ps"
    "drop 3 h = map (\<lambda>p. concat (take 5 (drop p (map escape enc))) @ str_of ''/'') ps"
    "map Inr f
         = map (\<lambda>p. s_securehash (concat (take 5 (drop p (map escape enc))
                                             @ take 5 (drop p (map escape enc))
                                             @ take 5 (drop p (map escape enc))))) ps"
    and sl: "b = map (written m (sorted_rank (map (\<lambda>p. take 5 (drop p (map escape enc))) ps))) slots"
    "concat (map (slot_tokens (map (\<lambda>p. take 5 (drop p (map escape enc))) ps)) slots)
         = take j (map escape enc)"
    "chunk_numbers slots = [1..<length ps + 1]"
    "\<forall>s \<in> set slots. wf_slot (length ps) s"
    "j = length (map escape enc) \<or> length ps = 997"
    by blast
  define l where "l = map (\<lambda>p. take 5 (drop p (map escape enc))) ps"
  have len: "length l = length ps" by (simp add: l_def)
  have rank: "\<forall>k. 1 \<le> k \<and> k \<le> length l
           \<longrightarrow> sorted_rank l k
               = 1 + card {i. i < length l \<and> (l ! i, i) < (l ! (k - 1), k - 1)}"
    using sorted_rank_card by blast
  from sc l_def sl(1) [folded l_def] sl(2) [folded l_def] sl(5) [folded len]
    sl(3) [folded len] sl(4) [folded len] rank
  show ?thesis by blast
qed

theorem s_compress_head_extraction_order_witness:
  "s_compress_parts (str_of ''000000'') ([0, 0,0,0,0,0,0,0,0,0, 4, 4, 0, 0] @- sconst 0)
   = Inr ([str_of ''001'', str_of ''!wes!/'', str_of ''[[1, 1, 1], [1, 1, 1], [1, 1, 1]]/'',
           str_of ''C0AGA/'', str_of ''5ACC0/''],
          [str_of ''@002'', str_of ''@001'', str_of ''C'', str_of ''0''],
          [str_of ''426169a455d6a614364673995552140f'',
           str_of ''204673c8bb6314164261f8b677d6a60f''])
   \<and> (\<exists>key enc m ps l slots j. s_encrypt (str_of ''000000'') key = Inr enc
     \<and> sorted_wrt (<) ps
     \<and> [str_of ''001'', str_of ''!wes!/'', str_of ''[[1, 1, 1], [1, 1, 1], [1, 1, 1]]/'']
         = [str_of ''001'', key @ str_of ''/'', repr_matrix m @ str_of ''/'']
     \<and> [str_of ''C0AGA/'', str_of ''5ACC0/'']
         = map (\<lambda>p. concat (take 5 (drop p (map escape enc))) @ str_of ''/'') ps
     \<and> l = map (\<lambda>p. take 5 (drop p (map escape enc))) ps
     \<and> [str_of ''@002'', str_of ''@001'', str_of ''C'', str_of ''0'']
         = map (written m (sorted_rank l)) slots
     \<and> concat (map (slot_tokens l) slots) = take j (map escape enc)
     \<and> chunk_numbers slots = [1..<length l + 1])"
proof -
  note run = compress_run_two_chunks
  have d: "drop 3 [str_of ''001'', str_of ''!wes!/'',
                   str_of ''[[1, 1, 1], [1, 1, 1], [1, 1, 1]]/'',
                   str_of ''C0AGA/'', str_of ''5ACC0/'']
           = [str_of ''C0AGA/'', str_of ''5ACC0/'']"
    "take 3 [str_of ''001'', str_of ''!wes!/'',
                   str_of ''[[1, 1, 1], [1, 1, 1], [1, 1, 1]]/'',
                   str_of ''C0AGA/'', str_of ''5ACC0/'']
           = [str_of ''001'', str_of ''!wes!/'', str_of ''[[1, 1, 1], [1, 1, 1], [1, 1, 1]]/'']"
    by simp_all
  from s_compress_head_extraction_order [OF run, unfolded d]
  have "\<exists>key enc m ps l slots j. s_encrypt (str_of ''000000'') key = Inr enc
     \<and> sorted_wrt (<) ps
     \<and> [str_of ''001'', str_of ''!wes!/'', str_of ''[[1, 1, 1], [1, 1, 1], [1, 1, 1]]/'']
         = [str_of ''001'', key @ str_of ''/'', repr_matrix m @ str_of ''/'']
     \<and> [str_of ''C0AGA/'', str_of ''5ACC0/'']
         = map (\<lambda>p. concat (take 5 (drop p (map escape enc))) @ str_of ''/'') ps
     \<and> l = map (\<lambda>p. take 5 (drop p (map escape enc))) ps
     \<and> [str_of ''@002'', str_of ''@001'', str_of ''C'', str_of ''0'']
         = map (written m (sorted_rank l)) slots
     \<and> concat (map (slot_tokens l) slots) = take j (map escape enc)
     \<and> chunk_numbers slots = [1..<length l + 1]"
    by (elim exE conjE) (intro exI conjI; assumption)
  with run show ?thesis by (rule conjI)
qed
section \<open>Properties of decompression\<close>









text \<open>
  With the matrix key of all ones, \<open>matdiv\<close> finds a solution of the matrix written
  for the token \<open>' '\<close> at \<open>maxv = 16\<close> that is not the matrix \<open>s_compress\<close> multiplied.
\<close>

lemma matdiv_other_solution:
  "matdiv 16 [[32, 32, 32], [6, 6, 6], [6, 6, 6]] [[1, 1, 1], [1, 1, 1], [1, 1, 1]]
      (failed_rounds 15 0 (3, 3) ([16, 0, 16, 2, 2, 2, 2, 2, 2] @- g))
   = Return ([[16, 0, 16], [2, 2, 2], [2, 2, 2]], g)"
proof -
  let ?c = "[[32, 32, 32], [6, 6, 6], [6, 6, 6 :: int]]"
  let ?b = "[[1, 1, 1], [1, 1, 1], [1, 1, 1 :: int]]"
  have ne: "matmul (replicate (snd (3, 3)) (replicate (fst (3, 3)) 0)) ?b \<noteq> ?c"
    by (simp add: matmul_def zip_star_def replicate_numeral_Cons)
  have "matdiv_while (15 + 1) 0 (3, 3) ?c ?b
          (failed_rounds 15 0 (3, 3) ([16, 0, 16, 2, 2, 2, 2, 2, 2] @- g))
        = matdiv_while 1 (0 + 15) (3, 3) ?c ?b ([16, 0, 16, 2, 2, 2, 2, 2, 2] @- g)"
    by (rule matdiv_while_failed_rounds [OF ne])
  also have "\<dots> = Return ([[16, 0, 16], [2, 2, 2], [2, 2, 2]], g)"
    by (simp add: matrix_eval)
  finally show ?thesis by (simp add: matdiv_def numeral_3_eq_3)
qed

section \<open>The three passes of decompression\<close>

















lemma decompress_run_wrong_text:
  "s_decompress 16
     (str_of ''001!wes!/[[1, 1, 1], [1, 1, 1], [1, 1, 1]]/'' @ [10]
      @ str_of ''C/[[32, 32, 32], [6, 6, 6], [6, 6, 6]]/'' @ [10])
     (failed_rounds 15 0 (3, 3) ([16, 0, 16, 2, 2, 2, 2, 2, 2, 2] @- sconst 0))
   = Return ([16], sconst 0)"
  using matdiv_other_solution [of "[2] @- sconst 0"]
  by (simp add: decompress_eval)




text \<open>
  C1 fails on the code. \<open>s_compress\<close> may draw a singular matrix key (here all ones);
  the matrix written for the token \<open>' '\<close> then has other solutions, \<open>matdiv\<close> may return
  one of them, and \<open>s_decompress\<close> returns the text \<open>chr(16)\<close> for the input \<open>' '\<close>.
\<close>

theorem s_decompress_s_compress_differs:
  "s_compress (str_of '' '') ([0, 0, 0, 0, 0, 0, 0, 0, 0, 0, 0, 4] @- sconst 0)
   = Inr (str_of ''001!wes!/[[1, 1, 1], [1, 1, 1], [1, 1, 1]]/'' @ [10]
          @ str_of ''C/[[32, 32, 32], [6, 6, 6], [6, 6, 6]]/'' @ [10])
   \<and> s_decompress 16
       (str_of ''001!wes!/[[1, 1, 1], [1, 1, 1], [1, 1, 1]]/'' @ [10]
        @ str_of ''C/[[32, 32, 32], [6, 6, 6], [6, 6, 6]]/'' @ [10])
       (failed_rounds 15 0 (3, 3) ([16, 0, 16, 2, 2, 2, 2, 2, 2, 2] @- sconst 0))
     = Return ([16], sconst 0)
   \<and> [16] \<noteq> str_of '' ''"
proof -
  have "s_compress (str_of '' '') ([0, 0, 0, 0, 0, 0, 0, 0, 0, 0, 0, 4] @- sconst 0)
   = Inr (str_of ''001!wes!/[[1, 1, 1], [1, 1, 1], [1, 1, 1]]/'' @ [10]
          @ str_of ''C/[[32, 32, 32], [6, 6, 6], [6, 6, 6]]/'' @ [10])"
    by (simp add: s_compress_def compress_eval)
  with decompress_run_wrong_text show ?thesis by (simp add: str_of_def)
qed

end
